theory Spec2Isabelle
  imports Main "HOL-Library.Word"
begin

unbundle bit_operations_syntax

section \<open>Machine integers and the arena\<close>

text \<open>
  Hashes are \<open>uint32_t\<close> values and are modelled as 32-bit words, so that the bit
  operations on the DELETED flag are the ones of the source.  Slot positions and
  probe distances are \<open>uint32_t\<close> too; they are modelled as natural numbers with
  the wrap-around at \<open>2 ^ 32\<close> written out where the source computes them.  The
  element counter \<open>m_num_elements\<close> is a \<open>size_t\<close> that is incremented and
  decremented, modelled as a 64-bit word; \<open>m_capacity\<close> is only ever a divisor
  or a bound and is a natural number.

  The buffer handed to \<open>create\<close> is one chunk of memory that the containers
  address as parallel regions.  A region is modelled as a function from the
  slot index to the slot's content.
\<close>

type_synonym u32 = "32 word"
type_synonym size_t = "64 word"

definition EMPTY_HASH :: u32 where
  "EMPTY_HASH = 0"

definition DELETED_HASH_BIT :: u32 where
  "DELETED_HASH_BIT = push_bit 31 1"

definition u32_modulus :: nat where
  "u32_modulus = 4294967296"

section \<open>cf::hashmap (cf_hashmap.hpp, robin hood variant)\<close>

record ('k, 'v) hashmap =
  m_num_elements :: size_t
  m_capacity :: nat
  hashes :: "nat \<Rightarrow> u32"
  keys :: "nat \<Rightarrow> 'k"
  vals :: "nat \<Rightarrow> 'v"

text \<open>\<open>hashmap::_hash\<close>.\<close>

definition hashmap_hash :: "u32 \<Rightarrow> u32" where
  "hashmap_hash hash =
     (if hash = EMPTY_HASH then EMPTY_HASH + 1
      else if hash AND DELETED_HASH_BIT \<noteq> 0 then hash AND NOT DELETED_HASH_BIT
      else hash)"

text \<open>
  \<open>hashmap::_get_probe_distance\<close>.  The result is the \<open>uint32_t\<close> difference
  \<open>pos - ideal_pos\<close>, which wraps modulo \<open>2 ^ 32\<close> (not modulo the capacity)
  when \<open>pos < ideal_pos\<close>.
\<close>

definition hashmap_get_probe_distance :: "('k, 'v) hashmap \<Rightarrow> nat \<Rightarrow> u32 \<Rightarrow> nat" where
  "hashmap_get_probe_distance t pos hash =
     (let hash' = hash AND NOT DELETED_HASH_BIT;
          ideal_pos = unat hash' mod m_capacity t
      in (pos + u32_modulus - ideal_pos) mod u32_modulus)"

text \<open>
  The loop \<open>while (42)\<close> of \<open>hashmap::_lookup_pos\<close>.  It has no bound of its
  own, so it is a partial function: \<open>None\<close> is a call that does not return.
  The result carries the out-parameter \<open>pos\<close> and, as a third component, the
  value of the local \<open>distance\<close> when the loop is left.
\<close>

partial_function (option) hashmap_lookup_loop ::
  "('k, 'v) hashmap \<Rightarrow> u32 \<Rightarrow> 'k \<Rightarrow> nat \<Rightarrow> nat \<Rightarrow> (bool \<times> nat \<times> nat) option" where
  "hashmap_lookup_loop t hash key pos distance =
     (if hashes t pos = EMPTY_HASH then Some (False, pos, distance)
      else if distance > hashmap_get_probe_distance t pos (hashes t pos)
        then Some (False, pos, distance)
      else if hashes t pos = hash \<and> keys t pos = key then Some (True, pos, distance)
      else hashmap_lookup_loop t hash key
             (((pos + 1) mod u32_modulus) mod m_capacity t)
             ((distance + 1) mod u32_modulus))"

text \<open>
  \<open>hashmap::_lookup_pos\<close>.  With \<open>m_capacity = 0\<close> the first statement
  \<open>hash % m_capacity\<close> traps, so the call does not return either.
\<close>

definition hashmap_lookup_pos :: "('k, 'v) hashmap \<Rightarrow> u32 \<Rightarrow> 'k \<Rightarrow> (bool \<times> nat) option" where
  "hashmap_lookup_pos t hash key =
     (if m_capacity t = 0 then None
      else map_option (\<lambda>(found, pos, distance). (found, pos))
             (hashmap_lookup_loop t hash key (unat hash mod m_capacity t) 0))"

text \<open>
  The three stores \<open>hashes[pos] = hash; keys[pos] = _key; values[pos] = _value\<close>
  that the private \<open>hashmap::insert\<close> performs where it puts the travelling
  entry down; a swap is these stores with the former content of the slot
  travelling on.
\<close>

definition place :: "('k, 'v) hashmap \<Rightarrow> nat \<Rightarrow> u32 \<Rightarrow> 'k \<Rightarrow> 'v \<Rightarrow> ('k, 'v) hashmap" where
  "place t pos hash key val =
     t\<lparr>hashes := (hashes t)(pos := hash), keys := (keys t)(pos := key),
       vals := (vals t)(pos := val)\<rparr>"

text \<open>
  The loop \<open>while (42)\<close> of \<open>hashmap::insert\<close>; \<open>hash\<close>, \<open>key\<close> and \<open>val\<close>
  are the travelling entry.  There is no check of \<open>m_num_elements\<close> against
  the capacity in front of it.
\<close>

partial_function (option) hashmap_insert_loop ::
  "('k, 'v) hashmap \<Rightarrow> u32 \<Rightarrow> 'k \<Rightarrow> 'v \<Rightarrow> nat \<Rightarrow> nat \<Rightarrow> ('k, 'v) hashmap option" where
  "hashmap_insert_loop t hash key val pos distance =
     (if hashes t pos = EMPTY_HASH
        then Some ((place t pos hash key val)\<lparr>m_num_elements := m_num_elements t + 1\<rparr>)
      else
        let exiting_distance = hashmap_get_probe_distance t pos (hashes t pos) in
        if exiting_distance < distance then
          if hashes t pos AND DELETED_HASH_BIT \<noteq> 0
            then Some ((place t pos hash key val)\<lparr>m_num_elements := m_num_elements t + 1\<rparr>)
          else hashmap_insert_loop (place t pos hash key val)
                 (hashes t pos) (keys t pos) (vals t pos)
                 (((pos + 1) mod u32_modulus) mod m_capacity t)
                 ((exiting_distance + 1) mod u32_modulus)
        else hashmap_insert_loop t hash key val
               (((pos + 1) mod u32_modulus) mod m_capacity t)
               ((distance + 1) mod u32_modulus))"

text \<open>\<open>hashmap::insert\<close>; \<open>hash % m_capacity\<close> traps when the capacity is 0.\<close>

definition hashmap_insert ::
  "('k, 'v) hashmap \<Rightarrow> u32 \<Rightarrow> 'k \<Rightarrow> 'v \<Rightarrow> ('k, 'v) hashmap option" where
  "hashmap_insert t hash key val =
     (if m_capacity t = 0 then None
      else hashmap_insert_loop t hash key val (unat hash mod m_capacity t) 0)"

text \<open>
  \<open>hashmap::create\<close>.  \<open>sizeof(TKey)\<close> and \<open>sizeof(TValue)\<close> are parameters;
  the three regions of the caller's buffer arrive with whatever they contain,
  and the loop writes \<open>EMPTY_HASH\<close> to the first \<open>capacity\<close> hash slots.
\<close>

fun clear_hashes :: "nat \<Rightarrow> (nat \<Rightarrow> u32) \<Rightarrow> (nat \<Rightarrow> u32)" where
  "clear_hashes 0 hs = hs"
| "clear_hashes (Suc i) hs = (clear_hashes i hs)(i := EMPTY_HASH)"

definition hashmap_create ::
  "nat \<Rightarrow> nat \<Rightarrow> nat \<Rightarrow> (nat \<Rightarrow> u32) \<Rightarrow> (nat \<Rightarrow> 'k) \<Rightarrow> (nat \<Rightarrow> 'v) \<Rightarrow> ('k, 'v) hashmap" where
  "hashmap_create sizeof_key sizeof_value buffer_size hs ks vs =
     (let capacity = buffer_size div (sizeof_key + sizeof_value + 4)
      in \<lparr>m_num_elements = 0, m_capacity = capacity,
          hashes = clear_hashes capacity hs, keys = ks, vals = vs\<rparr>)"

text \<open>\<open>hashmap::set\<close>.\<close>

definition hashmap_set ::
  "('k, 'v) hashmap \<Rightarrow> u32 \<Rightarrow> 'k \<Rightarrow> 'v \<Rightarrow> ('k, 'v) hashmap option" where
  "hashmap_set t hash key val =
     (let hash' = hashmap_hash hash in
      case hashmap_lookup_pos t hash' key of
        None \<Rightarrow> None
      | Some (exists, pos) \<Rightarrow>
          if exists then Some (t\<lparr>vals := (vals t)(pos := val)\<rparr>)
          else hashmap_insert t hash' key val)"

text \<open>
  \<open>hashmap::lookup\<close>.  The out-parameter \<open>value\<close> is passed in with its old
  content and comes back unchanged when nothing is found.
\<close>

definition hashmap_lookup ::
  "('k, 'v) hashmap \<Rightarrow> u32 \<Rightarrow> 'k \<Rightarrow> 'v \<Rightarrow> (bool \<times> 'v) option" where
  "hashmap_lookup t hash key val =
     (case hashmap_lookup_pos t (hashmap_hash hash) key of
        None \<Rightarrow> None
      | Some (exists, pos) \<Rightarrow>
          if exists then Some (True, vals t pos) else Some (False, val))"

text \<open>
  \<open>hashmap::get\<close>.  The local \<open>value\<close> is not initialised; \<open>uninit\<close> is
  what it happens to hold.
\<close>

definition hashmap_get :: "('k, 'v) hashmap \<Rightarrow> u32 \<Rightarrow> 'k \<Rightarrow> 'v \<Rightarrow> 'v option" where
  "hashmap_get t hash key uninit =
     map_option snd (hashmap_lookup t (hashmap_hash hash) key uninit)"

text \<open>\<open>hashmap::remove\<close>.\<close>

definition hashmap_remove :: "('k, 'v) hashmap \<Rightarrow> u32 \<Rightarrow> 'k \<Rightarrow> ('k, 'v) hashmap option" where
  "hashmap_remove t hash key =
     (case hashmap_lookup_pos t (hashmap_hash hash) key of
        None \<Rightarrow> None
      | Some (exists, pos) \<Rightarrow>
          if \<not> exists then Some t
          else Some (t\<lparr>hashes := (hashes t)(pos := hashes t pos OR DELETED_HASH_BIT),
                       m_num_elements := m_num_elements t - 1\<rparr>))"

text \<open>
  \<open>hashmap::iter_start\<close> and \<open>hashmap::iter_next\<close>.  The iterator is its
  \<open>offset\<close>.  \<open>iter_next\<close> returns the key and value it wrote to its
  out-parameters (\<open>None\<close> for the result \<open>false\<close>) and the iterator as the call
  leaves it.
\<close>

definition hashmap_iter_start :: "('k, 'v) hashmap \<Rightarrow> nat" where
  "hashmap_iter_start t = 0"

function hashmap_iter_loop :: "('k, 'v) hashmap \<Rightarrow> nat \<Rightarrow> nat \<Rightarrow> ('k \<times> 'v) option \<times> nat" where
  "hashmap_iter_loop t offset i =
     (if i < m_capacity t then
        if hashes t i = EMPTY_HASH then hashmap_iter_loop t offset (i + 1)
        else if hashes t i AND DELETED_HASH_BIT \<noteq> 0 then hashmap_iter_loop t offset (i + 1)
        else (Some (keys t i, vals t i), i + 1)
      else (None, offset))"
  by pat_completeness auto
termination
  by (relation "measure (\<lambda>(t, offset, i). m_capacity t - i)") auto

definition hashmap_iter_next :: "('k, 'v) hashmap \<Rightarrow> nat \<Rightarrow> ('k \<times> 'v) option \<times> nat" where
  "hashmap_iter_next t offset = hashmap_iter_loop t offset offset"

text \<open>
  \<open>hashmap::copy\<close>: a fresh map over the new buffer, then the private
  \<open>insert\<close> for every slot of the source that is neither empty nor deleted.
\<close>

function hashmap_copy_loop ::
  "('k, 'v) hashmap \<Rightarrow> nat \<Rightarrow> ('k, 'v) hashmap \<Rightarrow> ('k, 'v) hashmap option" where
  "hashmap_copy_loop t i new_hashmap =
     (if i < m_capacity t then
        if hashes t i = EMPTY_HASH then hashmap_copy_loop t (i + 1) new_hashmap
        else if hashes t i AND DELETED_HASH_BIT \<noteq> 0 then hashmap_copy_loop t (i + 1) new_hashmap
        else (case hashmap_insert new_hashmap (hashes t i) (keys t i) (vals t i) of
                None \<Rightarrow> None
              | Some new_hashmap' \<Rightarrow> hashmap_copy_loop t (i + 1) new_hashmap')
      else Some new_hashmap)"
  by pat_completeness auto
termination
  by (relation "measure (\<lambda>(t, i, new_hashmap). m_capacity t - i)") auto

definition hashmap_copy ::
  "('k, 'v) hashmap \<Rightarrow> nat \<Rightarrow> nat \<Rightarrow> nat \<Rightarrow> (nat \<Rightarrow> u32) \<Rightarrow> (nat \<Rightarrow> 'k) \<Rightarrow> (nat \<Rightarrow> 'v)
     \<Rightarrow> ('k, 'v) hashmap option" where
  "hashmap_copy t sizeof_key sizeof_value buffer_size hs ks vs =
     hashmap_copy_loop t 0 (hashmap_create sizeof_key sizeof_value buffer_size hs ks vs)"


text \<open>
  Runs of the public mutators: a list of \<open>set\<close> and \<open>remove\<close> calls applied
  in order; the run does not return when one of its calls does not.
\<close>

datatype ('k, 'v) call = Set u32 'k 'v | Remove u32 'k

fun run_calls :: "('k, 'v) hashmap \<Rightarrow> ('k, 'v) call list \<Rightarrow> ('k, 'v) hashmap option" where
  "run_calls t [] = Some t"
| "run_calls t (Set hash key val # cs) =
     (case hashmap_set t hash key val of None \<Rightarrow> None | Some t' \<Rightarrow> run_calls t' cs)"
| "run_calls t (Remove hash key # cs) =
     (case hashmap_remove t hash key of None \<Rightarrow> None | Some t' \<Rightarrow> run_calls t' cs)"

section \<open>cf::hashset (cf_hashset.hpp, robin hood variant)\<close>

text \<open>
  The set has the same layout without the key region.  Its two private loops
  differ from the map's: both run \<open>while (distance < m_capacity)\<close>, and
  \<open>_insert\<close> returns at once when the set is full.
\<close>

record 'a hashset =
  s_num_elements :: size_t
  s_capacity :: nat
  s_hashes :: "nat \<Rightarrow> u32"
  s_values :: "nat \<Rightarrow> 'a"

definition hashset_get_probe_distance :: "'a hashset \<Rightarrow> nat \<Rightarrow> u32 \<Rightarrow> nat" where
  "hashset_get_probe_distance s pos hash =
     (let hash' = hash AND NOT DELETED_HASH_BIT;
          ideal_pos = unat hash' mod s_capacity s
      in (pos + u32_modulus - ideal_pos) mod u32_modulus)"

partial_function (option) hashset_lookup_loop ::
  "'a hashset \<Rightarrow> u32 \<Rightarrow> 'a \<Rightarrow> nat \<Rightarrow> nat \<Rightarrow> (bool \<times> nat \<times> nat) option" where
  "hashset_lookup_loop s hash val pos distance =
     (if distance < s_capacity s then
        if s_hashes s pos = EMPTY_HASH then Some (False, pos, distance)
        else if distance > hashset_get_probe_distance s pos (s_hashes s pos)
          then Some (False, pos, distance)
        else if s_hashes s pos = hash \<and> s_values s pos = val then Some (True, pos, distance)
        else hashset_lookup_loop s hash val
               (((pos + 1) mod u32_modulus) mod s_capacity s)
               ((distance + 1) mod u32_modulus)
      else Some (False, pos, distance))"

definition hashset_lookup_pos :: "'a hashset \<Rightarrow> u32 \<Rightarrow> 'a \<Rightarrow> (bool \<times> nat) option" where
  "hashset_lookup_pos s hash val =
     (if s_capacity s = 0 then None
      else map_option (\<lambda>(found, pos, distance). (found, pos))
             (hashset_lookup_loop s hash val (unat hash mod s_capacity s) 0))"

definition s_place :: "'a hashset \<Rightarrow> nat \<Rightarrow> u32 \<Rightarrow> 'a \<Rightarrow> 'a hashset" where
  "s_place s pos hash val =
     s\<lparr>s_hashes := (s_hashes s)(pos := hash), s_values := (s_values s)(pos := val)\<rparr>"

partial_function (option) hashset_insert_loop ::
  "'a hashset \<Rightarrow> u32 \<Rightarrow> 'a \<Rightarrow> nat \<Rightarrow> nat \<Rightarrow> 'a hashset option" where
  "hashset_insert_loop s hash val pos distance =
     (if distance < s_capacity s then
        if s_hashes s pos = EMPTY_HASH
          then Some ((s_place s pos hash val)\<lparr>s_num_elements := s_num_elements s + 1\<rparr>)
        else
          let exiting_distance = hashset_get_probe_distance s pos (s_hashes s pos) in
          if exiting_distance < distance then
            if s_hashes s pos AND DELETED_HASH_BIT \<noteq> 0
              then Some ((s_place s pos hash val)\<lparr>s_num_elements := s_num_elements s + 1\<rparr>)
            else hashset_insert_loop (s_place s pos hash val) (s_hashes s pos) (s_values s pos)
                   (((pos + 1) mod u32_modulus) mod s_capacity s)
                   ((exiting_distance + 1) mod u32_modulus)
          else hashset_insert_loop s hash val
                 (((pos + 1) mod u32_modulus) mod s_capacity s)
                 ((distance + 1) mod u32_modulus)
      else Some s)"

text \<open>
  \<open>hashset::_insert\<close>.  The guard comes first; behind it \<open>hash % m_capacity\<close>
  traps when the capacity is 0 (and the count is not).
\<close>

definition hashset_insert_raw :: "'a hashset \<Rightarrow> u32 \<Rightarrow> 'a \<Rightarrow> 'a hashset option" where
  "hashset_insert_raw s hash val =
     (if unat (s_num_elements s) = s_capacity s then Some s
      else if s_capacity s = 0 then None
      else hashset_insert_loop s hash val (unat hash mod s_capacity s) 0)"

function hashset_iter_loop :: "'a hashset \<Rightarrow> nat \<Rightarrow> nat \<Rightarrow> 'a option \<times> nat" where
  "hashset_iter_loop s offset i =
     (if i < s_capacity s then
        if s_hashes s i = EMPTY_HASH then hashset_iter_loop s offset (i + 1)
        else if s_hashes s i AND DELETED_HASH_BIT \<noteq> 0 then hashset_iter_loop s offset (i + 1)
        else (Some (s_values s i), i + 1)
      else (None, offset))"
  by pat_completeness auto
termination
  by (relation "measure (\<lambda>(s, offset, i). s_capacity s - i)") auto

definition hashset_iter_next :: "'a hashset \<Rightarrow> nat \<Rightarrow> 'a option \<times> nat" where
  "hashset_iter_next s offset = hashset_iter_loop s offset offset"

section \<open>cf::memorypool (cf_memorypool.hpp)\<close>

text \<open>
  Every element of the buffer is a union of the value and the index of the
  next free element.  The pool only ever reads and writes the \<open>next\<close> view,
  so the buffer is modelled as the \<open>IndexType\<close> (\<open>uint32_t\<close>) seen in each
  element; what the caller stores through a returned pointer changes that view
  arbitrarily (\<open>store_value\<close>).  A returned pointer \<open>&m_buffer[i].value\<close> is
  the element index \<open>i\<close>, the null pointer is \<open>None\<close>.
\<close>

record memorypool =
  p_num_elements :: size_t
  p_capacity :: nat
  next_free :: u32
  p_buffer :: "nat \<Rightarrow> u32"

text \<open>
  The loop of \<open>memorypool::create\<close>: \<open>m_buffer[i].next = (i + 1) % m_capacity\<close>
  for \<open>i\<close> below the capacity.  Its counter is an \<open>IndexType\<close>, so the loop
  does not end when the capacity is \<open>2 ^ 32\<close> or more.
\<close>

fun link_elements :: "nat \<Rightarrow> nat \<Rightarrow> (nat \<Rightarrow> u32) \<Rightarrow> (nat \<Rightarrow> u32)" where
  "link_elements capacity 0 b = b"
| "link_elements capacity (Suc i) b =
     (link_elements capacity i b)(i := word_of_nat (((i + 1) mod u32_modulus) mod capacity))"

definition memorypool_create :: "nat \<Rightarrow> nat \<Rightarrow> (nat \<Rightarrow> u32) \<Rightarrow> memorypool option" where
  "memorypool_create sizeof_element buffer_size buffer =
     (let capacity = buffer_size div sizeof_element
      in if u32_modulus \<le> capacity then None
         else Some \<lparr>p_num_elements = 0, p_capacity = capacity, next_free = 0,
                    p_buffer = link_elements capacity capacity buffer\<rparr>)"

definition memorypool_allocate :: "memorypool \<Rightarrow> nat option \<times> memorypool" where
  "memorypool_allocate p =
     (if unat (p_num_elements p) = p_capacity p then (None, p)
      else
        let new_next_free = p_buffer p (unat (next_free p));
            old_next_free = next_free p;
            buffer' = (p_buffer p)(unat (next_free p) := p_buffer p (unat new_next_free))
        in (Some (unat old_next_free),
            p\<lparr>p_buffer := buffer', p_num_elements := p_num_elements p + 1,
              next_free := new_next_free\<rparr>))"

definition memorypool_free :: "memorypool \<Rightarrow> nat \<Rightarrow> memorypool" where
  "memorypool_free p element =
     (let index = (word_of_nat element :: u32);
          old_next_free = next_free p
      in p\<lparr>next_free := index, p_num_elements := p_num_elements p - 1,
           p_buffer := (p_buffer p)(unat index := old_next_free)\<rparr>)"

text \<open>The caller writing a value through a pointer it was given.\<close>

definition store_value :: "memorypool \<Rightarrow> nat \<Rightarrow> u32 \<Rightarrow> memorypool" where
  "store_value p element bits = p\<lparr>p_buffer := (p_buffer p)(element := bits)\<rparr>"

text \<open>
  A run of \<open>allocate\<close> calls; after each successful one the caller stores the
  next value of the list into the element it received.
\<close>

fun allocate_all :: "memorypool \<Rightarrow> u32 list \<Rightarrow> nat option list \<times> memorypool" where
  "allocate_all p [] = ([], p)"
| "allocate_all p (w # ws) =
     (case memorypool_allocate p of
        (None, p') \<Rightarrow> (case allocate_all p' ws of (rs, p'') \<Rightarrow> (None # rs, p''))
      | (Some a, p') \<Rightarrow>
          (case allocate_all (store_value p' a w) ws of (rs, p'') \<Rightarrow> (Some a # rs, p'')))"

section \<open>Notions of the specification\<close>

text \<open>
  The data model's classification of a slot by its stored hash: LIVE when the
  hash is not the EMPTY sentinel and the DELETED bit is clear.
\<close>

definition live :: "u32 \<Rightarrow> bool" where
  "live h = (h \<noteq> EMPTY_HASH \<and> h AND DELETED_HASH_BIT = 0)"

text \<open>A buffer region filled with zero bytes, for concrete runs.\<close>

definition zero_region :: "nat \<Rightarrow> 'a::zero" where
  "zero_region i = 0"

text \<open>
  The ideal position of a stored hash: the slot where its probe sequence
  starts, computed as \<open>_get_probe_distance\<close> does.
\<close>

definition ideal_pos :: "('k, 'v) hashmap \<Rightarrow> u32 \<Rightarrow> nat" where
  "ideal_pos t h = unat (h AND NOT DELETED_HASH_BIT) mod m_capacity t"

text \<open>A \<open>lookup\<close> that follows a run of calls.\<close>

definition lookup_after ::
  "('k, 'v) hashmap \<Rightarrow> ('k, 'v) call list \<Rightarrow> u32 \<Rightarrow> 'k \<Rightarrow> 'v \<Rightarrow> (bool \<times> 'v) option" where
  "lookup_after t cs hash key val =
     (case run_calls t cs of None \<Rightarrow> None | Some t' \<Rightarrow> hashmap_lookup t' hash key val)"

text \<open>
  Concrete maps over \<open>uint32_t\<close>-sized keys and values (natural numbers here).
  \<open>example_map\<close> holds the single entry of \<open>set(13, 13, 42)\<close> in four slots;
  \<open>full_map\<close> has two slots, both live; \<open>miscounted_map\<close> has two slots, both
  empty, and a count of one.  The last two are states that calls of the public
  interface produce, as shown below.
\<close>

definition example_map :: "(nat, nat) hashmap" where
  "example_map = \<lparr>m_num_elements = 1, m_capacity = 4,
      hashes = zero_region(1 := 13), keys = zero_region(1 := 13), vals = zero_region(1 := 42)\<rparr>"

definition full_map :: "(nat, nat) hashmap" where
  "full_map = \<lparr>m_num_elements = 2, m_capacity = 2,
      hashes = zero_region(0 := 1, 1 := 2), keys = zero_region(0 := 12, 1 := 11),
      vals = zero_region\<rparr>"

definition miscounted_map :: "(nat, nat) hashmap" where
  "miscounted_map = \<lparr>m_num_elements = 1, m_capacity = 2,
      hashes = zero_region, keys = zero_region(0 := 10), vals = zero_region(0 := 7)\<rparr>"

text \<open>
  A run that consists of \<open>set\<close> calls only, given as the list of their
  arguments, and the value that such a list writes last for a hash and key.
  Two caller hashes address the same entry when \<open>_hash\<close> normalises them to
  the same hash.
\<close>

fun set_calls :: "(u32 \<times> 'k \<times> 'v) list \<Rightarrow> ('k, 'v) call list" where
  "set_calls [] = []"
| "set_calls ((h, k, v) # xs) = Set h k v # set_calls xs"

fun last_written :: "(u32 \<times> 'k \<times> 'v) list \<Rightarrow> u32 \<Rightarrow> 'k \<Rightarrow> 'v option" where
  "last_written [] h k = None"
| "last_written ((h', k', v') # xs) h k =
     (case last_written xs h k of
        Some w \<Rightarrow> Some w
      | None \<Rightarrow> if hashmap_hash h' = hashmap_hash h \<and> k' = k then Some v' else None)"

text \<open>
  The probe distance of the specification: the position of slot \<open>p\<close> minus the
  ideal position of its hash, modulo the capacity.
\<close>

definition probe_dist :: "('k, 'v) hashmap \<Rightarrow> nat \<Rightarrow> nat" where
  "probe_dist t p = (p + m_capacity t - ideal_pos t (hashes t p)) mod m_capacity t"

text \<open>
  The robin hood invariant as the loops need it.  \<open>path_ok t i n\<close>: a probe
  that starts at the ideal position \<open>i\<close> passes its first \<open>n\<close> slots, that is,
  each of them is occupied and stores a probe distance (as
  \<open>_get_probe_distance\<close> computes it) of at least the distance the probe has
  there.  \<open>probe_invariant\<close>: every occupied slot is reached in this way by the
  probe for its own hash.  \<open>robin_hood\<close> collects this with the bounds on the
  capacity, the absence of tombstones and the uniqueness of stored
  (hash, key) pairs.
\<close>

definition path_ok :: "('k, 'v) hashmap \<Rightarrow> nat \<Rightarrow> nat \<Rightarrow> bool" where
  "path_ok t i n =
     (\<forall>d<n. hashes t ((i + d) mod m_capacity t) \<noteq> EMPTY_HASH
            \<and> d \<le> hashmap_get_probe_distance t ((i + d) mod m_capacity t)
                     (hashes t ((i + d) mod m_capacity t)))"

definition probe_invariant :: "('k, 'v) hashmap \<Rightarrow> bool" where
  "probe_invariant t =
     (\<forall>p<m_capacity t. hashes t p \<noteq> EMPTY_HASH \<longrightarrow>
        path_ok t (ideal_pos t (hashes t p)) (probe_dist t p))"

definition distinct_entries :: "('k, 'v) hashmap \<Rightarrow> bool" where
  "distinct_entries t =
     (\<forall>p<m_capacity t. \<forall>q<m_capacity t.
        hashes t p \<noteq> EMPTY_HASH \<and> hashes t p = hashes t q \<and> keys t p = keys t q \<longrightarrow> p = q)"

definition no_tombstones :: "('k, 'v) hashmap \<Rightarrow> bool" where
  "no_tombstones t = (\<forall>p<m_capacity t. hashes t p AND DELETED_HASH_BIT = 0)"

definition robin_hood :: "('k, 'v) hashmap \<Rightarrow> bool" where
  "robin_hood t =
     (0 < m_capacity t \<and> m_capacity t \<le> 2147483648 \<and> no_tombstones t
      \<and> probe_invariant t \<and> distinct_entries t)"

text \<open>
  The content of a table, read off its slots: \<open>holds t h k v\<close> when some
  occupied slot stores hash \<open>h\<close>, key \<open>k\<close> and value \<open>v\<close>; \<open>absent\<close> when no
  slot stores the hash and key; \<open>occupied\<close>, the set of slots that are not
  EMPTY; \<open>content_is\<close>, agreement with a finite map; \<open>written\<close>, the map that
  a list of \<open>set\<close> arguments builds.
\<close>

definition holds :: "('k, 'v) hashmap \<Rightarrow> u32 \<Rightarrow> 'k \<Rightarrow> 'v \<Rightarrow> bool" where
  "holds t h k v =
     (\<exists>p<m_capacity t. hashes t p = h \<and> h \<noteq> EMPTY_HASH \<and> keys t p = k \<and> vals t p = v)"

definition absent :: "('k, 'v) hashmap \<Rightarrow> u32 \<Rightarrow> 'k \<Rightarrow> bool" where
  "absent t h k = (\<forall>p<m_capacity t. \<not> (hashes t p = h \<and> keys t p = k))"

definition occupied :: "('k, 'v) hashmap \<Rightarrow> nat set" where
  "occupied t = {p. p < m_capacity t \<and> hashes t p \<noteq> EMPTY_HASH}"

definition content_is :: "('k, 'v) hashmap \<Rightarrow> (u32 \<times> 'k \<rightharpoonup> 'v) \<Rightarrow> bool" where
  "content_is t m = (\<forall>h k v. holds t h k v \<longleftrightarrow> m (h, k) = Some v)"

fun written :: "(u32 \<times> 'k \<rightharpoonup> 'v) \<Rightarrow> (u32 \<times> 'k \<times> 'v) list \<Rightarrow> (u32 \<times> 'k \<rightharpoonup> 'v)" where
  "written m [] = m"
| "written m ((h, k, v) # xs) = written (m((hashmap_hash h, k) \<mapsto> v)) xs"

text \<open>
  The same notions for a table that may hold tombstones: the LIVE slots, the
  entries they hold, and the uniqueness of (hash, key) among them.  \<open>counted\<close>:
  \<open>m_num_elements\<close> is the number of occupied slots.
\<close>

definition live_slots :: "('k, 'v) hashmap \<Rightarrow> nat set" where
  "live_slots t = {p. p < m_capacity t \<and> live (hashes t p)}"

definition live_holds :: "('k, 'v) hashmap \<Rightarrow> u32 \<Rightarrow> 'k \<Rightarrow> 'v \<Rightarrow> bool" where
  "live_holds t h k v =
     (\<exists>p<m_capacity t. live (hashes t p) \<and> hashes t p = h \<and> keys t p = k \<and> vals t p = v)"

definition distinct_live :: "('k, 'v) hashmap \<Rightarrow> bool" where
  "distinct_live t =
     (\<forall>p<m_capacity t. \<forall>q<m_capacity t.
        live (hashes t p) \<and> hashes t p = hashes t q \<and> keys t p = keys t q \<longrightarrow> p = q)"

definition counted :: "('k, 'v) hashmap \<Rightarrow> bool" where
  "counted t = (m_num_elements t = of_nat (card (occupied t)))"


definition lost_entry_map :: "(nat, nat) hashmap" where
  "lost_entry_map = \<lparr>m_num_elements = 4, m_capacity = 4,
      hashes = zero_region(0 := 1, 1 := 2, 2 := 3, 3 := 2),
      keys = zero_region(0 := 100, 1 := 200, 2 := 300, 3 := 201),
      vals = zero_region(0 := 55)\<rparr>"

section \<open>Hash normalisation\<close>

lemma DELETED_HASH_BIT_power: "DELETED_HASH_BIT = 2 ^ 31"
  by (simp add: DELETED_HASH_BIT_def)

lemma bit_DELETED_HASH_BIT: "bit DELETED_HASH_BIT n \<longleftrightarrow> n = 31"
  unfolding DELETED_HASH_BIT_power by (auto simp only: bit_exp_iff possible_bit_word) simp

lemma and_DELETED_iff: "h AND DELETED_HASH_BIT \<noteq> 0 \<longleftrightarrow> bit h 31"
  unfolding DELETED_HASH_BIT_power by (metis and_exp_eq_0_iff_not_bit)

lemma hashmap_hash_bits:
  "h \<noteq> 0 \<Longrightarrow> bit (hashmap_hash h) n \<longleftrightarrow> bit h n \<and> n \<noteq> 31"
  by (auto simp: hashmap_hash_def EMPTY_HASH_def and_DELETED_iff bit_and_iff bit_not_iff
        bit_DELETED_HASH_BIT dest: bit_imp_possible_bit)

lemma hashmap_hash_0_1: "hashmap_hash 0 = 1" "hashmap_hash 1 = 1"
  by (simp_all add: hashmap_hash_def EMPTY_HASH_def DELETED_HASH_BIT_def)

lemma hashmap_hash_no_DELETED: "hashmap_hash h AND DELETED_HASH_BIT = 0"
proof (cases "h = 0")
  case True
  then show ?thesis by (simp add: hashmap_hash_0_1 DELETED_HASH_BIT_def)
next
  case False
  then have "\<not> bit (hashmap_hash h) 31" by (simp add: hashmap_hash_bits)
  then show ?thesis using and_DELETED_iff by blast
qed

text \<open>
  Claim C8.  \<open>_hash\<close> sends the caller hash 0 to 1, clears the DELETED bit of
  every other hash that has it set, and returns every other hash unchanged.
  Since every public operation that takes a hash passes it through \<open>_hash\<close>
  first, \<open>set\<close>, \<open>lookup\<close>, \<open>get\<close> and \<open>remove\<close> called with hash 0 do
  exactly what they do with hash 1, on every table.
\<close>

theorem hashmap_hash_normalises:
  "hashmap_hash 0 = 1
   \<and> (h \<noteq> 0 \<and> h AND DELETED_HASH_BIT \<noteq> 0 \<longrightarrow>
        hashmap_hash h = h AND NOT DELETED_HASH_BIT \<and> hashmap_hash h AND DELETED_HASH_BIT = 0)
   \<and> (h \<noteq> 0 \<and> h AND DELETED_HASH_BIT = 0 \<longrightarrow> hashmap_hash h = h)
   \<and> hashmap_set t 0 k v = hashmap_set t 1 k v
   \<and> hashmap_lookup t 0 k v = hashmap_lookup t 1 k v
   \<and> hashmap_get t 0 k v = hashmap_get t 1 k v
   \<and> hashmap_remove t 0 k = hashmap_remove t 1 k"
  by (simp add: hashmap_hash_no_DELETED hashmap_hash_0_1 hashmap_set_def hashmap_lookup_def
        hashmap_get_def hashmap_remove_def)
     (simp add: hashmap_hash_def EMPTY_HASH_def)

theorem hashmap_hash_normalises_witness:
  "(2147483653 :: u32) \<noteq> 0 \<and> 2147483653 AND DELETED_HASH_BIT \<noteq> 0
   \<and> hashmap_hash 2147483653 = 5
   \<and> (5 :: u32) \<noteq> 0 \<and> 5 AND DELETED_HASH_BIT = 0 \<and> hashmap_hash 5 = 5"
  using hashmap_hash_normalises
          [of 2147483653 "hashmap_create 4 2 20 zero_region zero_region zero_region" "0 :: nat" "0 :: nat"]
        hashmap_hash_normalises
          [of 5 "hashmap_create 4 2 20 zero_region zero_region zero_region" "0 :: nat" "0 :: nat"]
  by (simp add: DELETED_HASH_BIT_def)


text \<open>
  Claim C10.  \<open>_hash\<close> is not idempotent: the caller hash \<open>0x80000000\<close> is not
  0 and has the DELETED bit set, so clearing the bit gives 0, the EMPTY
  sentinel, and a second application gives 1.
\<close>

theorem hashmap_hash_not_idempotent:
  "hashmap_hash 2147483648 = 0 \<and> hashmap_hash (hashmap_hash 2147483648) = 1"
  by (simp add: hashmap_hash_def EMPTY_HASH_def DELETED_HASH_BIT_def)

section \<open>Wrap-around arithmetic of positions and distances\<close>

lemma u32_sub:
  "b \<le> a \<Longrightarrow> a < u32_modulus \<Longrightarrow> (a + u32_modulus - b) mod u32_modulus = a - b"
proof -
  assume a: "b \<le> a" "a < u32_modulus"
  then have "(a + u32_modulus - b) mod u32_modulus = ((a - b) + u32_modulus) mod u32_modulus"
    by simp
  also have "\<dots> = (a - b) mod u32_modulus" by simp
  also have "\<dots> = a - b" using a by simp
  finally show ?thesis .
qed

lemma u32_sub_wrap:
  "a < b \<Longrightarrow> b \<le> u32_modulus \<Longrightarrow> (a + u32_modulus - b) mod u32_modulus = a + u32_modulus - b"
  by simp

lemma next_pos_wrap:
  "Suc pos = cap \<Longrightarrow> cap \<le> 2147483648 \<Longrightarrow> (Suc pos mod u32_modulus) mod cap = 0"
  by (simp add: u32_modulus_def)

lemma probe_distance_alt:
  "hashmap_get_probe_distance t pos h = (pos + u32_modulus - ideal_pos t h) mod u32_modulus"
  by (simp add: hashmap_get_probe_distance_def ideal_pos_def Let_def)

lemma ideal_pos_less: "0 < m_capacity t \<Longrightarrow> ideal_pos t h < m_capacity t"
  by (simp add: ideal_pos_def)

lemma probe_distance_unwrapped:
  assumes "ideal_pos t h \<le> pos" "pos < m_capacity t" "m_capacity t \<le> 2147483648"
  shows "hashmap_get_probe_distance t pos h = pos - ideal_pos t h"
  unfolding probe_distance_alt using assms by (intro u32_sub) (simp_all add: u32_modulus_def)

lemma probe_distance_wrapped:
  assumes "pos < ideal_pos t h" "0 < m_capacity t" "m_capacity t \<le> 2147483648"
  shows "hashmap_get_probe_distance t pos h = pos + u32_modulus - ideal_pos t h"
proof -
  have "ideal_pos t h \<le> u32_modulus"
    using ideal_pos_less[OF assms(2), of h] assms(3) by (simp add: u32_modulus_def)
  then show ?thesis unfolding probe_distance_alt using assms(1) by (intro u32_sub_wrap)
qed

lemma probe_distance_last:
  assumes "0 < m_capacity t" "m_capacity t \<le> 2147483648"
  shows "hashmap_get_probe_distance t (m_capacity t - 1) h < m_capacity t"
proof -
  have "ideal_pos t h \<le> m_capacity t - 1" using ideal_pos_less[OF assms(1), of h] by simp
  then have "hashmap_get_probe_distance t (m_capacity t - 1) h = m_capacity t - 1 - ideal_pos t h"
    using assms by (intro probe_distance_unwrapped) simp_all
  then show ?thesis using assms by simp
qed

section \<open>The lookup loop of the map\<close>

text \<open>What a returning loop returns: a slot of the table, and on success the match.\<close>

lemma lookup_loop_result:
  assumes "hashmap_lookup_loop t hash key pos distance = Some r"
  shows "pos < m_capacity t \<longrightarrow>
           fst (snd r) < m_capacity t \<and>
           (fst r \<longrightarrow> hashes t (fst (snd r)) = hash \<and> keys t (fst (snd r)) = key)"
  using assms
  apply (rule hashmap_lookup_loop.raw_induct [rotated 1,
    where P = "\<lambda>t hash key pos distance r. pos < m_capacity t \<longrightarrow>
           fst (snd r) < m_capacity t \<and>
           (fst r \<longrightarrow> hashes t (fst (snd r)) = hash \<and> keys t (fst (snd r)) = key)"])
  apply (auto split: if_splits)
  done

text \<open>
  The loop always returns, although it has no bound: the probe distance stored
  in the last slot is below the capacity, so the second pass over the table
  ends there at the latest.
\<close>

lemma lookup_loop_returns_second_pass:
  assumes "m_capacity t \<le> 2147483648" "pos < m_capacity t"
    "m_capacity t - 1 - pos = n"
    "m_capacity t \<le> distance + n" "distance + n < 4294967296"
  shows "\<exists>found p d. hashmap_lookup_loop t hash key pos distance = Some (found, p, d)
            \<and> d \<le> distance + n"
  using assms
proof (induction n arbitrary: pos distance)
  case 0
  then have pos: "pos = m_capacity t - 1" and cap: "0 < m_capacity t" by simp_all
  have "hashmap_get_probe_distance t pos (hashes t pos) < distance"
    using probe_distance_last[OF cap "0.prems"(1), of "hashes t pos"] "0.prems"(4) pos by simp
  then show ?case
    by (subst hashmap_lookup_loop.simps) auto
next
  case (Suc n)
  then have p1: "(Suc pos mod u32_modulus) mod m_capacity t = Suc pos"
    and d1: "Suc distance mod u32_modulus = Suc distance"
    by (simp_all add: u32_modulus_def)
  have "\<exists>found p d. hashmap_lookup_loop t hash key (Suc pos) (Suc distance) = Some (found, p, d)
          \<and> d \<le> Suc distance + n"
    using Suc.prems by (intro Suc.IH) simp_all
  then show ?case
    by (subst hashmap_lookup_loop.simps) (auto simp: p1 d1)
qed

lemma lookup_loop_returns_first_pass:
  assumes "m_capacity t \<le> 2147483648" "pos < m_capacity t"
    "m_capacity t - 1 - pos = n"
    "distance + n + m_capacity t < 4294967296"
  shows "\<exists>found p d. hashmap_lookup_loop t hash key pos distance = Some (found, p, d)
            \<and> d \<le> distance + n + m_capacity t"
  using assms
proof (induction n arbitrary: pos distance)
  case 0
  then have pos: "Suc pos = m_capacity t" and cap: "0 < m_capacity t" by simp_all
  have p1: "(Suc pos mod u32_modulus) mod m_capacity t = 0"
    using pos "0.prems"(1) by (intro next_pos_wrap)
  have d1: "Suc distance mod u32_modulus = Suc distance"
    using "0.prems" by (simp add: u32_modulus_def)
  have "\<exists>found p d. hashmap_lookup_loop t hash key 0 (Suc distance) = Some (found, p, d)
           \<and> d \<le> Suc distance + (m_capacity t - 1)"
    using "0.prems" cap
    by (intro lookup_loop_returns_second_pass) simp_all
  then show ?case using cap
    by (subst hashmap_lookup_loop.simps) (auto simp: p1 d1)
next
  case (Suc n)
  then have p1: "(Suc pos mod u32_modulus) mod m_capacity t = Suc pos"
    and d1: "Suc distance mod u32_modulus = Suc distance"
    by (simp_all add: u32_modulus_def)
  have "\<exists>found p d. hashmap_lookup_loop t hash key (Suc pos) (Suc distance) = Some (found, p, d)
          \<and> d \<le> Suc distance + n + m_capacity t"
    using Suc.prems by (intro Suc.IH) simp_all
  then show ?case
    by (subst hashmap_lookup_loop.simps) (auto simp: p1 d1)
qed

lemma hashmap_lookup_loop_returns:
  assumes "0 < m_capacity t" "m_capacity t \<le> 2147483648"
  shows "\<exists>found p d. hashmap_lookup_loop t hash key (unat hash mod m_capacity t) 0
             = Some (found, p, d) \<and> d < 2 * m_capacity t"
proof -
  let ?pos = "unat hash mod m_capacity t"
  have pos: "?pos < m_capacity t" using assms by simp
  have "\<exists>found p d. hashmap_lookup_loop t hash key ?pos 0 = Some (found, p, d)
            \<and> d \<le> 0 + (m_capacity t - 1 - ?pos) + m_capacity t"
    using assms pos by (intro lookup_loop_returns_first_pass) simp_all
  then show ?thesis using assms by fastforce
qed

lemma hashmap_lookup_pos_returns:
  assumes "0 < m_capacity t" "m_capacity t \<le> 2147483648"
  shows "\<exists>found p. hashmap_lookup_pos t hash key = Some (found, p) \<and> p < m_capacity t
           \<and> (found \<longrightarrow> hashes t p = hash \<and> keys t p = key)"
proof -
  let ?pos = "unat hash mod m_capacity t"
  have pos: "?pos < m_capacity t" using assms by simp
  from hashmap_lookup_loop_returns[OF assms, of hash key]
  obtain found p d where r: "hashmap_lookup_loop t hash key ?pos 0 = Some (found, p, d)"
    by blast
  from lookup_loop_result[OF r] pos
  have "p < m_capacity t \<and> (found \<longrightarrow> hashes t p = hash \<and> keys t p = key)" by simp
  then show ?thesis using assms r by (simp add: hashmap_lookup_pos_def)
qed

text \<open>
  The set's loop, \<open>while (distance < m_capacity)\<close>, leaves with a distance of
  at most the capacity: it probes at most \<open>m_capacity\<close> slots.
\<close>

lemma hashset_lookup_loop_bounded:
  assumes "s_capacity s \<le> 2147483648" "s_capacity s - distance = n"
  shows "\<exists>found p d. hashset_lookup_loop s hash val pos distance = Some (found, p, d)
            \<and> d \<le> max (s_capacity s) distance"
  using assms
proof (induction n arbitrary: pos distance)
  case 0
  then show ?case by (subst hashset_lookup_loop.simps) auto
next
  case (Suc n)
  then have d1: "Suc distance mod u32_modulus = Suc distance"
    by (simp add: u32_modulus_def)
  have "\<exists>found p d. hashset_lookup_loop s hash val
            ((Suc pos mod u32_modulus) mod s_capacity s) (Suc distance) = Some (found, p, d)
          \<and> d \<le> max (s_capacity s) (Suc distance)"
    using Suc.prems by (intro Suc.IH) simp_all
  then show ?case using Suc.prems
    by (subst hashset_lookup_loop.simps) (auto simp: d1)
qed

lemma hashset_lookup_pos_bounded:
  assumes "s_capacity s \<le> 2147483648"
  shows "\<exists>found p d. hashset_lookup_loop s hash val (unat hash mod s_capacity s) 0
            = Some (found, p, d) \<and> d \<le> s_capacity s"
proof -
  have "s_capacity s - 0 = s_capacity s" by simp
  from hashset_lookup_loop_bounded[OF assms this, of hash val "unat hash mod s_capacity s"]
  show ?thesis by simp
qed

lemmas eval_defs = hashmap_set_def hashmap_lookup_def hashmap_lookup_pos_def hashmap_insert_def
  hashmap_create_def hashmap_hash_def hashmap_get_probe_distance_def EMPTY_HASH_def
  DELETED_HASH_BIT_def u32_modulus_def place_def hashmap_remove_def hashmap_get_def
  zero_region_def Let_def hashmap_lookup_loop.simps hashmap_insert_loop.simps

lemma clear_hashes_apply: "clear_hashes n hs i = (if i < n then EMPTY_HASH else hs i)"
  by (induction n) auto

lemma full_map_reachable:
  "run_calls (hashmap_create 4 4 24 zero_region zero_region zero_region)
      [Set 2 10 0, Set 2 11 0, Remove 2 10, Set 1 12 0] = Some full_map"
  by (simp add: eval_defs full_map_def clear_hashes_apply fun_eq_iff)

text \<open>
  Claim C3.  The map's \<open>_lookup_pos\<close> loops \<open>while (42)\<close>, not while
  \<open>distance < capacity\<close>.  On the two-slot map that \<open>set(2,10)\<close>, \<open>set(2,11)\<close>,
  \<open>remove(2,10)\<close>, \<open>set(1,12)\<close> produce, the query for hash 2 and the absent
  key 13 leaves the loop with \<open>distance = 3\<close>: it has probed four slots of a
  table of capacity two before it answers not-found.
\<close>

theorem hashmap_lookup_probes_beyond_capacity:
  "run_calls (hashmap_create 4 4 24 zero_region zero_region zero_region)
      [Set 2 10 0, Set 2 11 0, Remove 2 10, Set 1 12 0] = Some full_map
   \<and> m_capacity full_map = 2
   \<and> hashmap_lookup_loop full_map 2 13 (unat (2 :: u32) mod m_capacity full_map) 0
        = Some (False, 1, 3)"
  using full_map_reachable by (simp add: eval_defs full_map_def)

section \<open>remove\<close>

lemma or_DELETED_bits: "bit (h OR DELETED_HASH_BIT) n \<longleftrightarrow> bit h n \<or> n = 31"
  by (auto simp: bit_or_iff bit_DELETED_HASH_BIT)

lemma or_DELETED_low:
  "(h OR DELETED_HASH_BIT) AND NOT DELETED_HASH_BIT = h AND NOT DELETED_HASH_BIT"
  by (rule bit_eqI) (auto simp: bit_or_iff bit_and_iff bit_not_iff bit_DELETED_HASH_BIT)

lemma or_DELETED_set: "(h OR DELETED_HASH_BIT) AND DELETED_HASH_BIT \<noteq> 0"
  by (simp only: and_DELETED_iff or_DELETED_bits) simp

lemma hashmap_lookup_pos_result:
  assumes "hashmap_lookup_pos t hash key = Some (found, p)"
  shows "p < m_capacity t \<and> (found \<longrightarrow> hashes t p = hash \<and> keys t p = key)"
proof -
  from assms have cap: "m_capacity t \<noteq> 0" by (auto simp: hashmap_lookup_pos_def split: if_splits)
  with assms obtain d where r: "hashmap_lookup_loop t hash key (unat hash mod m_capacity t) 0
      = Some (found, p, d)"
    by (auto simp: hashmap_lookup_pos_def)
  have "unat hash mod m_capacity t < m_capacity t" using cap by simp
  with lookup_loop_result[OF r] show ?thesis by simp
qed

text \<open>
  \<open>remove\<close> follows the answer of \<open>lookup\<close>.  When \<open>lookup\<close> reports
  found, \<open>remove\<close> changes exactly one hash slot, the one that holds the
  normalised hash and the key: it sets the DELETED bit there and keeps the
  other 31 bits, leaves the key and value regions as they are, and decrements
  \<open>m_num_elements\<close>.  When \<open>lookup\<close> reports not found, \<open>remove\<close> returns
  the map unchanged.  On a map of capacity between 1 and \<open>2 ^ 31\<close>
  \<open>lookup\<close> always answers, so one of the two cases applies.  Whether a key
  that is present is also found is a separate matter, settled below.
\<close>

lemma hashmap_remove_effect:
  "(\<forall>v. hashmap_lookup t h k v0 = Some (True, v) \<longrightarrow>
         (\<exists>pos < m_capacity t. hashes t pos = hashmap_hash h \<and> keys t pos = k \<and> vals t pos = v
            \<and> hashmap_remove t h k =
                Some (t\<lparr>hashes := (hashes t)(pos := hashes t pos OR DELETED_HASH_BIT),
                        m_num_elements := m_num_elements t - 1\<rparr>)
            \<and> (hashes t pos OR DELETED_HASH_BIT) AND DELETED_HASH_BIT \<noteq> 0
            \<and> (hashes t pos OR DELETED_HASH_BIT) AND NOT DELETED_HASH_BIT
                 = hashes t pos AND NOT DELETED_HASH_BIT))
    \<and> (\<forall>v. hashmap_lookup t h k v0 = Some (False, v) \<longrightarrow> hashmap_remove t h k = Some t)
    \<and> (0 < m_capacity t \<and> m_capacity t \<le> 2147483648 \<longrightarrow>
          (\<exists>found v. hashmap_lookup t h k v0 = Some (found, v)))"
proof (intro conjI allI impI)
  fix v assume l: "hashmap_lookup t h k v0 = Some (True, v)"
  then obtain p where r: "hashmap_lookup_pos t (hashmap_hash h) k = Some (True, p)"
    and v: "vals t p = v"
    by (auto simp: hashmap_lookup_def split: option.splits if_splits)
  from hashmap_lookup_pos_result[OF r]
  have p: "p < m_capacity t" "hashes t p = hashmap_hash h" "keys t p = k" by simp_all
  have rm: "hashmap_remove t h k =
        Some (t\<lparr>hashes := (hashes t)(p := hashes t p OR DELETED_HASH_BIT),
                m_num_elements := m_num_elements t - 1\<rparr>)"
    using r by (simp add: hashmap_remove_def)
  show "\<exists>pos < m_capacity t. hashes t pos = hashmap_hash h \<and> keys t pos = k \<and> vals t pos = v
            \<and> hashmap_remove t h k =
                Some (t\<lparr>hashes := (hashes t)(pos := hashes t pos OR DELETED_HASH_BIT),
                        m_num_elements := m_num_elements t - 1\<rparr>)
            \<and> (hashes t pos OR DELETED_HASH_BIT) AND DELETED_HASH_BIT \<noteq> 0
            \<and> (hashes t pos OR DELETED_HASH_BIT) AND NOT DELETED_HASH_BIT
                 = hashes t pos AND NOT DELETED_HASH_BIT"
    using p v rm or_DELETED_low or_DELETED_set by (intro exI[of _ p]) simp
next
  fix v assume "hashmap_lookup t h k v0 = Some (False, v)"
  then obtain p where "hashmap_lookup_pos t (hashmap_hash h) k = Some (False, p)"
    by (auto simp: hashmap_lookup_def split: option.splits if_splits)
  then show "hashmap_remove t h k = Some t" by (simp add: hashmap_remove_def)
next
  assume "0 < m_capacity t \<and> m_capacity t \<le> 2147483648"
  then have cap: "0 < m_capacity t" "m_capacity t \<le> 2147483648" by simp_all
  from hashmap_lookup_pos_returns[OF cap, of "hashmap_hash h" k]
  obtain found p where "hashmap_lookup_pos t (hashmap_hash h) k = Some (found, p)" by blast
  then show "\<exists>found v. hashmap_lookup t h k v0 = Some (found, v)"
    by (cases found) (auto simp: hashmap_lookup_def)
qed

lemma hashmap_remove_effect_example:
  "0 < m_capacity example_map \<and> m_capacity example_map \<le> 2147483648
   \<and> hashmap_lookup example_map 13 13 0 = Some (True, 42)
   \<and> hashmap_remove example_map 13 13 =
        Some (example_map\<lparr>hashes := (hashes example_map)(1 := 13 OR DELETED_HASH_BIT),
                          m_num_elements := 0\<rparr>)
   \<and> hashmap_lookup example_map 12 12 0 = Some (False, 0)
   \<and> hashmap_remove example_map 12 12 = Some example_map"
proof -
  have c: "0 < m_capacity example_map" "m_capacity example_map \<le> 2147483648"
    by (simp_all add: example_map_def)
  have l1: "hashmap_lookup example_map 13 13 0 = Some (True, 42)"
    by (simp add: eval_defs example_map_def)
  have l2: "hashmap_lookup example_map 12 12 0 = Some (False, 0)"
    by (simp add: eval_defs example_map_def)
  from hashmap_remove_effect[of example_map 13 13 0] l1
  obtain pos where p: "hashes example_map pos = hashmap_hash 13"
    and r: "hashmap_remove example_map 13 13 =
        Some (example_map\<lparr>hashes := (hashes example_map)
                            (pos := hashes example_map pos OR DELETED_HASH_BIT),
                          m_num_elements := m_num_elements example_map - 1\<rparr>)"
    by blast
  from p have "pos = 1"
    by (simp add: example_map_def zero_region_def hashmap_hash_def EMPTY_HASH_def
          DELETED_HASH_BIT_def split: if_splits)
  with r have r1: "hashmap_remove example_map 13 13 =
        Some (example_map\<lparr>hashes := (hashes example_map)(1 := 13 OR DELETED_HASH_BIT),
                          m_num_elements := 0\<rparr>)"
    by (simp add: example_map_def)
  from hashmap_remove_effect[of example_map 12 12 0] l2
  have r2: "hashmap_remove example_map 12 12 = Some example_map" by blast
  show ?thesis using c l1 l2 r1 r2 by blast
qed

section \<open>Iteration\<close>

lemma iter_loop_none:
  assumes "\<forall>j. i \<le> j \<and> j < m_capacity t \<longrightarrow> \<not> live (hashes t j)"
  shows "hashmap_iter_loop t offset i = (None, offset)"
  using assms
proof (induction "m_capacity t - i" arbitrary: i)
  case 0
  then show ?case by simp
next
  case (Suc n)
  then have "i < m_capacity t" "\<not> live (hashes t i)" by auto
  moreover have "hashmap_iter_loop t offset (i + 1) = (None, offset)"
    using Suc.prems Suc.hyps(2) by (intro Suc.hyps(1)) auto
  ultimately show ?case by (auto simp: live_def)
qed

lemma iter_loop_some:
  assumes "i \<le> p" "p < m_capacity t" "live (hashes t p)"
    "\<forall>j. i \<le> j \<and> j < p \<longrightarrow> \<not> live (hashes t j)"
  shows "hashmap_iter_loop t offset i = (Some (keys t p, vals t p), p + 1)"
  using assms
proof (induction "p - i" arbitrary: i)
  case 0
  then have "i = p" by simp
  then show ?case using 0 by (auto simp: live_def)
next
  case (Suc n)
  then have "i < m_capacity t" "\<not> live (hashes t i)" "i < p" by auto
  moreover have "hashmap_iter_loop t offset (i + 1) = (Some (keys t p, vals t p), p + 1)"
    using Suc.prems Suc.hyps(2) by (intro Suc.hyps(1)) auto
  ultimately show ?case by (auto simp: live_def)
qed

text \<open>
  Claim C7, as the code has it.  When no slot from \<open>offset\<close> up to the capacity
  is LIVE, \<open>iter_next\<close> reports exhaustion and leaves the iterator's offset as
  it was.  When \<open>p\<close> is the first LIVE slot at or after \<open>offset\<close> (EMPTY and
  DELETED slots before it are skipped), \<open>iter_next\<close> returns that slot's key and
  value and sets the offset to \<open>p + 1\<close>.
\<close>

theorem hashmap_iter_next_effect:
  "((\<forall>j. offset \<le> j \<and> j < m_capacity t \<longrightarrow> \<not> live (hashes t j)) \<longrightarrow>
       hashmap_iter_next t offset = (None, offset))
   \<and> (offset \<le> p \<and> p < m_capacity t \<and> live (hashes t p)
        \<and> (\<forall>j. offset \<le> j \<and> j < p \<longrightarrow> \<not> live (hashes t j)) \<longrightarrow>
       hashmap_iter_next t offset = (Some (keys t p, vals t p), p + 1))"
  using iter_loop_none iter_loop_some unfolding hashmap_iter_next_def by blast

theorem hashmap_iter_next_effect_witness:
  "m_capacity example_map = 4
   \<and> \<not> live (hashes example_map 2) \<and> \<not> live (hashes example_map 3)
   \<and> hashmap_iter_next example_map 2 = (None, 2)
   \<and> \<not> live (hashes example_map 0) \<and> live (hashes example_map 1)
   \<and> hashmap_iter_next example_map 0 = (Some (13, 42), 2)"
proof -
  have cap: "m_capacity example_map = 4" by (simp add: example_map_def)
  have dead: "\<not> live (hashes example_map 0)" "\<not> live (hashes example_map 2)"
    "\<not> live (hashes example_map 3)"
    by (simp_all add: example_map_def zero_region_def live_def EMPTY_HASH_def)
  have alive: "live (hashes example_map 1)"
    by (simp add: example_map_def live_def EMPTY_HASH_def DELETED_HASH_BIT_def)
  have a: "\<forall>j. 2 \<le> j \<and> j < m_capacity example_map \<longrightarrow> \<not> live (hashes example_map j)"
    by (simp add: example_map_def zero_region_def live_def EMPTY_HASH_def)
  have b: "\<forall>j. 0 \<le> j \<and> j < 1 \<longrightarrow> \<not> live (hashes example_map j)"
    using dead by simp
  from hashmap_iter_next_effect[of 2 example_map 1] a
  have c: "hashmap_iter_next example_map 2 = (None, 2)" by blast
  from hashmap_iter_next_effect[of 0 example_map 1] b alive cap
  have "hashmap_iter_next example_map 0 = (Some (keys example_map 1, vals example_map 1), 1 + 1)"
    by simp
  then have d: "hashmap_iter_next example_map 0 = (Some (13, 42), 2)"
    by (simp add: example_map_def)
  show ?thesis using cap dead alive c d by blast
qed

text \<open>
  The claim as written fails: on \<open>example_map\<close> (capacity 4, slots 2 and 3
  empty) a call with offset 2 reports exhaustion and returns the offset 2, not
  the capacity.
\<close>

theorem hashmap_iter_next_offset_counterexample:
  "m_capacity example_map = 4
   \<and> \<not> live (hashes example_map 2) \<and> \<not> live (hashes example_map 3)
   \<and> hashmap_iter_next example_map 2 = (None, 2)"
  by (simp add: hashmap_iter_next_def example_map_def zero_region_def live_def EMPTY_HASH_def)

text \<open>The set's \<open>iter_next\<close> leaves the offset alone in the same way.\<close>

lemma hashset_iter_loop_none:
  assumes "\<forall>j. i \<le> j \<and> j < s_capacity s \<longrightarrow> \<not> live (s_hashes s j)"
  shows "hashset_iter_loop s offset i = (None, offset)"
  using assms
proof (induction "s_capacity s - i" arbitrary: i)
  case 0
  then show ?case by simp
next
  case (Suc n)
  then have "i < s_capacity s" "\<not> live (s_hashes s i)" by auto
  moreover have "hashset_iter_loop s offset (i + 1) = (None, offset)"
    using Suc.prems Suc.hyps(2) by (intro Suc.hyps(1)) auto
  ultimately show ?case by (auto simp: live_def)
qed

section \<open>The raw insert on a full table\<close>

text \<open>
  The map's \<open>insert\<close> returns only from an EMPTY slot or from a DELETED one.
  When every slot is LIVE, each iteration either swaps or advances and leaves
  every slot LIVE, so the call never returns.
\<close>

lemma insert_loop_full_never_returns:
  assumes "hashmap_insert_loop t h k v pos d = Some y"
  shows "\<not> (pos < m_capacity t \<and> live h \<and> (\<forall>p<m_capacity t. live (hashes t p)))"
  using assms
proof (rule hashmap_insert_loop.raw_induct [rotated 1,
    where P = "\<lambda>t h k v pos d y.
      \<not> (pos < m_capacity t \<and> live h \<and> (\<forall>p<m_capacity t. live (hashes t p)))"])
  fix lp :: "('a, 'b) hashmap \<Rightarrow> u32 \<Rightarrow> 'a \<Rightarrow> 'b \<Rightarrow> nat \<Rightarrow> nat \<Rightarrow> ('a, 'b) hashmap option"
    and t h k v pos d y
  assume IH: "\<And>t h k v pos d y. lp t h k v pos d = Some y \<Longrightarrow>
      \<not> (pos < m_capacity t \<and> live h \<and> (\<forall>p<m_capacity t. live (hashes t p)))"
  assume body: "(if hashes t pos = EMPTY_HASH
        then Some ((place t pos h k v)\<lparr>m_num_elements := m_num_elements t + 1\<rparr>)
        else let exiting_distance = hashmap_get_probe_distance t pos (hashes t pos)
             in if exiting_distance < d
                then if hashes t pos AND DELETED_HASH_BIT \<noteq> 0
                     then Some ((place t pos h k v)\<lparr>m_num_elements := m_num_elements t + 1\<rparr>)
                     else lp (place t pos h k v) (hashes t pos) (keys t pos) (vals t pos)
                           ((pos + 1) mod u32_modulus mod m_capacity t)
                           ((exiting_distance + 1) mod u32_modulus)
                else lp t h k v ((pos + 1) mod u32_modulus mod m_capacity t)
                      ((d + 1) mod u32_modulus)) = Some y"
  show "\<not> (pos < m_capacity t \<and> live h \<and> (\<forall>p<m_capacity t. live (hashes t p)))"
  proof
    assume inv: "pos < m_capacity t \<and> live h \<and> (\<forall>p<m_capacity t. live (hashes t p))"
    then have lv: "live (hashes t pos)"
      and np: "(pos + 1) mod u32_modulus mod m_capacity t < m_capacity t"
      by simp_all
    let ?np = "(pos + 1) mod u32_modulus mod m_capacity t"
    let ?e = "hashmap_get_probe_distance t pos (hashes t pos)"
    from lv have ne: "hashes t pos \<noteq> EMPTY_HASH" "hashes t pos AND DELETED_HASH_BIT = 0"
      by (simp_all add: live_def)
    show False
    proof (cases "?e < d")
      case True
      with body ne
      have "lp (place t pos h k v) (hashes t pos) (keys t pos) (vals t pos) ?np
            ((?e + 1) mod u32_modulus) = Some y"
        by (simp add: Let_def)
      from IH[OF this] show False using inv lv np by (auto simp: place_def split: if_splits)
    next
      case False
      with body ne have "lp t h k v ?np ((d + 1) mod u32_modulus) = Some y"
        by (simp add: Let_def)
      from IH[OF this] show False using inv np by simp
    qed
  qed
qed

lemma hashmap_insert_full_never_returns:
  assumes "0 < m_capacity t" "live h" "\<forall>p<m_capacity t. live (hashes t p)"
  shows "hashmap_insert t h k v = None"
proof (rule ccontr)
  assume "hashmap_insert t h k v \<noteq> None"
  then obtain y where "hashmap_insert_loop t h k v (unat h mod m_capacity t) 0 = Some y"
    using assms(1) by (auto simp: hashmap_insert_def)
  from insert_loop_full_never_returns[OF this] show False using assms by simp
qed

text \<open>The set's \<open>_insert\<close> has the guard: on a full set it returns the set as it is.\<close>

lemma hashset_insert_raw_full:
  "unat (s_num_elements s) = s_capacity s \<Longrightarrow> hashset_insert_raw s hash val = Some s"
  by (simp add: hashset_insert_raw_def)

text \<open>
  Claim C4.  The map's private \<open>insert\<close> has no such guard.  On \<open>full_map\<close>,
  the two-slot map that four calls of the public interface produce and where
  \<open>m_num_elements\<close> equals the capacity 2, the raw insert of a new entry does
  not return, and neither does the \<open>set\<close> that calls it.
\<close>

theorem hashmap_insert_full_diverges:
  "run_calls (hashmap_create 4 4 24 zero_region zero_region zero_region)
      [Set 2 10 0, Set 2 11 0, Remove 2 10, Set 1 12 0] = Some full_map
   \<and> unat (m_num_elements full_map) = m_capacity full_map
   \<and> hashmap_insert full_map 3 14 0 = None
   \<and> hashmap_set full_map 3 14 0 = None"
proof -
  have lv: "\<forall>p<m_capacity full_map. live (hashes full_map p)"
    by (simp add: full_map_def live_def EMPTY_HASH_def DELETED_HASH_BIT_def zero_region_def
          less_2_cases_iff)
  have l3: "live 3" by (simp add: live_def EMPTY_HASH_def DELETED_HASH_BIT_def)
  have i: "hashmap_insert full_map 3 14 0 = None"
    using lv l3 by (intro hashmap_insert_full_never_returns) (simp_all add: full_map_def)
  have "hashmap_lookup_pos full_map 3 14 = Some (False, 1)"
    by (simp add: eval_defs full_map_def)
  then have "hashmap_set full_map 3 14 0 = None" using i
    by (simp add: hashmap_set_def hashmap_hash_def EMPTY_HASH_def DELETED_HASH_BIT_def)
  then show ?thesis using i full_map_reachable by (simp add: full_map_def)
qed

section \<open>copy\<close>

lemma miscounted_map_reachable:
  "run_calls (hashmap_create 4 4 24 zero_region zero_region zero_region)
      [Set 2147483648 10 7] = Some miscounted_map"
  by (simp add: eval_defs miscounted_map_def clear_hashes_apply fun_eq_iff)

text \<open>
  Claim C5.  \<open>set(0x80000000, 10, 7)\<close> on a fresh two-slot map normalises the
  hash to 0, stores it into an EMPTY slot and counts one element, although the
  slot still reads as EMPTY.  \<open>copy\<close> skips that slot, so the copy counts no
  element where the source counts one.
\<close>

theorem hashmap_copy_loses_count:
  "run_calls (hashmap_create 4 4 24 zero_region zero_region zero_region)
      [Set 2147483648 10 7] = Some miscounted_map
   \<and> m_num_elements miscounted_map = 1
   \<and> map_option m_num_elements
       (hashmap_copy miscounted_map 4 4 48 zero_region zero_region zero_region) = Some 0"
  using miscounted_map_reachable
  by (simp add: eval_defs miscounted_map_def hashmap_copy_def clear_hashes_apply)

text \<open>
  A second way in which a map and its copy come apart.  After three removals
  the four-slot map below has no EMPTY slot left; the last \<open>set\<close> goes round
  the table once and reclaims a tombstone that lies on the probe path of the
  entry with key 100.  That entry was set and never removed, it is still in
  its slot, and \<open>lookup\<close> no longer finds it.
\<close>

lemma hashmap_lookup_loses_entry:
  "lookup_after (hashmap_create 4 4 48 zero_region zero_region zero_region)
     [Set 1 (101::nat) (0::nat), Set 1 102 0, Set 1 103 0, Set 1 100 55,
      Remove 1 101, Set 2 200 0, Remove 1 102, Set 3 300 0, Remove 1 103]
     1 100 0 = Some (True, 55)
   \<and> lookup_after (hashmap_create 4 4 48 zero_region zero_region zero_region)
     [Set 1 (101::nat) (0::nat), Set 1 102 0, Set 1 103 0, Set 1 100 55,
      Remove 1 101, Set 2 200 0, Remove 1 102, Set 3 300 0, Remove 1 103, Set 2 201 0]
     1 100 0 = Some (False, 0)"
  by (simp add: eval_defs lookup_after_def clear_hashes_apply)

text \<open>The copy of that map into eight slots finds the entry again.\<close>

lemma hashmap_copy_finds_lost_entry:
  "Option.bind
     (run_calls (hashmap_create 4 4 48 zero_region zero_region zero_region)
        [Set 1 (101::nat) (0::nat), Set 1 102 0, Set 1 103 0, Set 1 100 55,
         Remove 1 101, Set 2 200 0, Remove 1 102, Set 3 300 0, Remove 1 103, Set 2 201 0])
     (\<lambda>t. Option.bind (hashmap_copy t 4 4 96 zero_region zero_region zero_region)
        (\<lambda>t'. hashmap_lookup t' 1 100 0)) = Some (True, 55)"
  by (simp add: eval_defs hashmap_copy_def clear_hashes_apply)

section \<open>remove of an entry that lookup misses\<close>

lemma lost_entry_map_reachable:
  "run_calls (hashmap_create 4 4 48 zero_region zero_region zero_region)
     [Set 1 101 0, Set 1 102 0, Set 1 103 0, Set 1 100 55,
      Remove 1 101, Set 2 200 0, Remove 1 102, Set 3 300 0, Remove 1 103, Set 2 201 0]
     = Some lost_entry_map"
  by (simp add: eval_defs lost_entry_map_def clear_hashes_apply fun_eq_iff)

text \<open>
  Claim C6.  \<open>remove\<close> of a key that is present in the table has to set the
  DELETED bit of the key's slot and to decrement \<open>m_num_elements\<close>.  The
  ten calls above lead to \<open>lost_entry_map\<close>.  Its slot 0 is LIVE and holds
  the normalised hash 1, the key 100 and the value 55 of an entry that was
  set and never removed, and the count is 4.  \<open>remove(1, 100)\<close> returns
  this map as it is: no DELETED bit is set, and the count stays 4.
\<close>

theorem hashmap_remove_misses_live_entry:
  "run_calls (hashmap_create 4 4 48 zero_region zero_region zero_region)
     [Set 1 101 0, Set 1 102 0, Set 1 103 0, Set 1 100 55,
      Remove 1 101, Set 2 200 0, Remove 1 102, Set 3 300 0, Remove 1 103, Set 2 201 0]
     = Some lost_entry_map
   \<and> live (hashes lost_entry_map 0) \<and> hashes lost_entry_map 0 = hashmap_hash 1
   \<and> keys lost_entry_map 0 = 100 \<and> vals lost_entry_map 0 = 55
   \<and> m_num_elements lost_entry_map = 4
   \<and> hashmap_remove lost_entry_map 1 100 = Some lost_entry_map"
  using lost_entry_map_reachable
  by (simp add: eval_defs lost_entry_map_def live_def)

section \<open>The memory pool\<close>

lemma link_elements_apply:
  "link_elements c n b j = (if j < n then word_of_nat (((j + 1) mod u32_modulus) mod c) else b j)"
  by (induction n) auto

lemma length_5: "length ws = 5 \<Longrightarrow> \<exists>a b c d e. ws = [a, b, c, d, e]"
proof -
  assume "length ws = 5"
  then have "length ws = Suc (Suc (Suc (Suc (Suc 0))))" by simp
  then show ?thesis by (auto simp: length_Suc_conv)
qed

lemma less_5: "(i::nat) < 5 \<Longrightarrow> i = 0 \<or> i = 1 \<or> i = 2 \<or> i = 3 \<or> i = 4"
  by arith

text \<open>
  Claim C9.  Take a pool created over a buffer of exactly five elements,
  whatever the buffer held, and let the caller store any five values \<open>ws\<close>
  into the elements it is given.  Five \<open>allocate\<close> calls return the five
  elements 0 to 4, pairwise distinct and none of them null, and the count goes
  from 0 to 5 one by one.  A sixth \<open>allocate\<close> returns null and changes nothing.
  After \<open>free\<close> of any one element \<open>i\<close> the count is 4, and a further
  \<open>allocate\<close> returns a non-null pointer (the element \<open>i\<close>) with the count back
  at 5, the capacity.
\<close>

theorem memorypool_five_slots:
  assumes "memorypool_create sizeof_element buffer_size buffer = Some p0"
    and "p_capacity p0 = 5" and "length ws = 5" and "i < 5"
  shows "case allocate_all p0 ws of (rs, p5) \<Rightarrow>
           rs = [Some 0, Some 1, Some 2, Some 3, Some 4]
           \<and> distinct rs \<and> None \<notin> set rs
           \<and> (\<forall>n \<le> 5. unat (p_num_elements (snd (allocate_all p0 (take n ws)))) = n)
           \<and> memorypool_allocate p5 = (None, p5)
           \<and> unat (p_num_elements (memorypool_free p5 i)) = 4
           \<and> (case memorypool_allocate (memorypool_free p5 i) of (r, p7) \<Rightarrow>
                 r = Some i \<and> unat (p_num_elements p7) = 5
                 \<and> unat (p_num_elements p7) \<le> p_capacity p7)"
proof -
  from assms(1,2) have p0: "p0 = \<lparr>p_num_elements = 0, p_capacity = 5, next_free = 0,
      p_buffer = link_elements 5 5 buffer\<rparr>"
    by (auto simp: memorypool_create_def Let_def split: if_splits)
  from length_5[OF assms(3)] obtain a b c d e where ws: "ws = [a, b, c, d, e]" by blast
  have all_n: "\<And>P. (\<forall>n\<le>5. P (n::nat)) \<longleftrightarrow> P 0 \<and> P 1 \<and> P 2 \<and> P 3 \<and> P 4 \<and> P 5"
  proof -
    fix P :: "nat \<Rightarrow> bool"
    have "\<And>n::nat. n \<le> 5 \<longleftrightarrow> n = 0 \<or> n = 1 \<or> n = 2 \<or> n = 3 \<or> n = 4 \<or> n = 5" by arith
    then show "(\<forall>n\<le>5. P n) \<longleftrightarrow> P 0 \<and> P 1 \<and> P 2 \<and> P 3 \<and> P 4 \<and> P 5" by auto
  qed
  from less_5[OF assms(4)] show ?thesis
    unfolding p0 ws all_n
    by (elim disjE)
      (simp_all add: memorypool_allocate_def memorypool_free_def store_value_def Let_def
         link_elements_apply u32_modulus_def)
qed

theorem memorypool_five_slots_witness:
  "memorypool_create 8 40 zero_region =
      Some \<lparr>p_num_elements = 0, p_capacity = 5, next_free = 0,
            p_buffer = link_elements 5 5 zero_region\<rparr>
   \<and> length [11, 22, 33, 44, 55 :: u32] = 5 \<and> (3::nat) < 5
   \<and> fst (allocate_all \<lparr>p_num_elements = 0, p_capacity = 5, next_free = 0,
            p_buffer = link_elements 5 5 zero_region\<rparr> [11, 22, 33, 44, 55])
       = [Some 0, Some 1, Some 2, Some 3, Some 4]"
proof -
  let ?p = "\<lparr>p_num_elements = 0, p_capacity = 5, next_free = 0,
            p_buffer = link_elements 5 5 zero_region\<rparr>"
  have a: "memorypool_create 8 40 zero_region = Some ?p"
    by (simp add: memorypool_create_def u32_modulus_def)
  have b: "p_capacity ?p = 5" "length [11, 22, 33, 44, 55 :: u32] = 5" "(3::nat) < 5" by simp_all
  obtain rs p5 where ap: "allocate_all ?p [11, 22, 33, 44, 55] = (rs, p5)"
    by (cases "allocate_all ?p [11, 22, 33, 44, 55]")
  from memorypool_five_slots[OF a b, unfolded ap prod.case]
  have "rs = [Some 0, Some 1, Some 2, Some 3, Some 4]" by (rule conjunct1)
  then have "fst (allocate_all ?p [11, 22, 33, 44, 55]) = [Some 0, Some 1, Some 2, Some 3, Some 4]"
    by (simp only: ap fst_conv)
  then show ?thesis using a b by blast
qed


section \<open>Positions on a probe path\<close>

lemma mod_twice_less: "x < 2 * c \<Longrightarrow> x mod c = (if x < c then x else x - (c::nat))"
  by (simp add: mod_if)

lemma path_pos_inj:
  assumes "d < c" "d' < c" "(i + d) mod c = (i + d') mod (c::nat)"
  shows "d = d'"
proof -
  have aux: "\<And>a b. a \<le> b \<Longrightarrow> b < c \<Longrightarrow> (i + a) mod c = (i + b) mod c \<Longrightarrow> a = b"
  proof -
    fix a b assume ab: "a \<le> b" "b < c" "(i + a) mod c = (i + b) mod c"
    then have "c dvd (i + b) - (i + a)"
      by (metis add_le_cancel_left mod_eq_dvd_iff_nat)
    then have "c dvd b - a" by simp
    moreover have "b - a < c" using ab by simp
    ultimately have "b - a = 0" by (meson dvd_imp_le not_less zero_less_iff_neq_zero)
    then show "a = b" using ab by simp
  qed
  show ?thesis
  proof (cases "d \<le> d'")
    case True then show ?thesis using aux assms by blast
  next
    case False then show ?thesis using aux[of d' d] assms by simp
  qed
qed

lemma path_pos_back:
  assumes "p < c" "i < (c::nat)"
  shows "(i + (p + c - i) mod c) mod c = p"
proof -
  have "(i + (p + c - i) mod c) mod c = (i + (p + c - i)) mod c" by (simp add: mod_add_right_eq)
  also have "\<dots> = (p + c) mod c" using assms by simp
  also have "\<dots> = p" using assms by simp
  finally show ?thesis .
qed

lemma path_pos_dist:
  assumes "i < c" "d < (c::nat)"
  shows "((i + d) mod c + c - i) mod c = d"
proof (cases "i + d < c")
  case True
  then have "((i + d) mod c + c - i) mod c = (d + c) mod c" by simp
  then show ?thesis using assms by simp
next
  case False
  then have "(i + d) mod c = i + d - c" using assms by (simp add: mod_twice_less)
  then have "((i + d) mod c + c - i) mod c = d mod c" using False by simp
  then show ?thesis using assms by simp
qed

lemma path_pos_Suc: "Suc ((i + d) mod c) mod c = (i + Suc d) mod c"
  by (simp add: mod_Suc_eq)

lemma path_pos_less: "0 < c \<Longrightarrow> (i + d) mod c < (c::nat)"
  by simp

lemma sub_mod_unwrapped:
  assumes "i \<le> p" "p < (c::nat)"
  shows "(p + c - i) mod c = p - i"
proof -
  have "(p + c - i) mod c = ((p - i) + c) mod c" using assms by simp
  also have "\<dots> = (p - i) mod c" by simp
  also have "\<dots> = p - i" using assms by simp
  finally show ?thesis .
qed

lemma probe_distance_ge:
  assumes "0 < m_capacity t" "m_capacity t \<le> 2147483648" "p < m_capacity t"
  shows "(p + m_capacity t - ideal_pos t h) mod m_capacity t \<le> hashmap_get_probe_distance t p h"
proof (cases "ideal_pos t h \<le> p")
  case True
  then have "hashmap_get_probe_distance t p h = p - ideal_pos t h"
    using assms by (intro probe_distance_unwrapped)
  moreover have "(p + m_capacity t - ideal_pos t h) mod m_capacity t = p - ideal_pos t h"
    using True assms(3) by (rule sub_mod_unwrapped)
  ultimately show ?thesis by simp
next
  case False
  then have w: "hashmap_get_probe_distance t p h = p + u32_modulus - ideal_pos t h"
    using assms by (intro probe_distance_wrapped) simp_all
  have "(p + m_capacity t - ideal_pos t h) mod m_capacity t < m_capacity t" using assms by simp
  moreover have "m_capacity t \<le> p + u32_modulus - ideal_pos t h"
    using ideal_pos_less[OF assms(1), of h] assms by (simp add: u32_modulus_def)
  ultimately show ?thesis using w by simp
qed

lemma probe_distance_small:
  assumes "0 < m_capacity t" "m_capacity t \<le> 2147483648" "p < m_capacity t"
    "hashmap_get_probe_distance t p h < m_capacity t"
  shows "ideal_pos t h \<le> p \<and> hashmap_get_probe_distance t p h = p - ideal_pos t h"
proof (cases "ideal_pos t h \<le> p")
  case True
  then show ?thesis using assms by (simp add: probe_distance_unwrapped)
next
  case False
  then have w: "hashmap_get_probe_distance t p h = p + u32_modulus - ideal_pos t h"
    using assms by (intro probe_distance_wrapped) simp_all
  have "m_capacity t \<le> p + u32_modulus - ideal_pos t h"
    using ideal_pos_less[OF assms(1), of h] assms by (simp add: u32_modulus_def)
  then show ?thesis using w assms(4) by simp
qed

lemma next_pos_mod:
  assumes "p < c" "c \<le> 2147483648"
  shows "(Suc p mod u32_modulus) mod c = Suc p mod c"
  using assms by (simp add: u32_modulus_def)

lemma next_dist_mod: "d < 2147483648 \<Longrightarrow> Suc d mod u32_modulus = Suc d"
  by (simp add: u32_modulus_def)

section \<open>Lookup finds what the table holds\<close>

lemma probe_dist_less: "0 < m_capacity t \<Longrightarrow> probe_dist t p < m_capacity t"
  by (simp add: probe_dist_def)

lemma probe_dist_pos:
  assumes "0 < m_capacity t" "p < m_capacity t"
  shows "(ideal_pos t (hashes t p) + probe_dist t p) mod m_capacity t = p"
  unfolding probe_dist_def using assms(2) ideal_pos_less[OF assms(1)] by (rule path_pos_back)

lemma probe_dist_le_code:
  assumes "0 < m_capacity t" "m_capacity t \<le> 2147483648" "p < m_capacity t"
  shows "probe_dist t p \<le> hashmap_get_probe_distance t p (hashes t p)"
  unfolding probe_dist_def using assms by (rule probe_distance_ge)

lemma lookup_loop_finds:
  assumes rh: "robin_hood t"
    and p: "p < m_capacity t" "hashes t p = h" "h \<noteq> EMPTY_HASH" "keys t p = k"
    and d: "probe_dist t p - d = n" "d \<le> probe_dist t p"
  shows "hashmap_lookup_loop t h k ((ideal_pos t h + d) mod m_capacity t) d
           = Some (True, p, probe_dist t p)"
  using d
proof (induction n arbitrary: d)
  case 0
  from rh have cap: "0 < m_capacity t" "m_capacity t \<le> 2147483648" by (simp_all add: robin_hood_def)
  from 0 have dd: "d = probe_dist t p" by simp
  have pos: "(ideal_pos t h + d) mod m_capacity t = p"
    unfolding dd using probe_dist_pos[OF cap(1) p(1)] p(2) by simp
  have "\<not> hashmap_get_probe_distance t p (hashes t p) < d"
    using probe_dist_le_code[OF cap p(1)] dd by simp
  then show ?case unfolding pos
    using p dd by (subst hashmap_lookup_loop.simps) simp
next
  case (Suc n)
  from rh have cap: "0 < m_capacity t" "m_capacity t \<le> 2147483648" by (simp_all add: robin_hood_def)
  let ?q = "(ideal_pos t h + d) mod m_capacity t"
  from Suc.prems have dlt: "d < probe_dist t p" by simp
  from rh p have "path_ok t (ideal_pos t h) (probe_dist t p)"
    by (auto simp: robin_hood_def probe_invariant_def)
  with dlt have q: "hashes t ?q \<noteq> EMPTY_HASH"
    "d \<le> hashmap_get_probe_distance t ?q (hashes t ?q)"
    by (simp_all add: path_ok_def)
  have qlt: "?q < m_capacity t" using cap by simp
  have dcap: "d < m_capacity t" using dlt probe_dist_less[OF cap(1), of p] by simp
  have qp: "?q \<noteq> p"
  proof
    assume "?q = p"
    then have "(ideal_pos t h + d) mod m_capacity t = (ideal_pos t h + probe_dist t p) mod m_capacity t"
      using probe_dist_pos[OF cap(1) p(1)] p(2) by simp
    from path_pos_inj[OF dcap probe_dist_less[OF cap(1)] this] dlt show False by simp
  qed
  have nomatch: "\<not> (hashes t ?q = h \<and> keys t ?q = k)"
  proof
    assume "hashes t ?q = h \<and> keys t ?q = k"
    with rh p qlt have "p = ?q"
      by (auto simp: robin_hood_def distinct_entries_def)
    with qp show False by simp
  qed
  have np: "(Suc ?q mod u32_modulus) mod m_capacity t = (ideal_pos t h + Suc d) mod m_capacity t"
    using next_pos_mod[OF qlt cap(2)] by (simp add: path_pos_Suc)
  have nd: "Suc d mod u32_modulus = Suc d" using dcap cap by (intro next_dist_mod) simp
  have "hashmap_lookup_loop t h k ((ideal_pos t h + Suc d) mod m_capacity t) (Suc d)
           = Some (True, p, probe_dist t p)"
    using Suc.prems by (intro Suc.IH) simp_all
  then show ?case
    using q nomatch by (subst hashmap_lookup_loop.simps) (auto simp: np nd)
qed

lemma and_not_DELETED_id: "h AND DELETED_HASH_BIT = 0 \<Longrightarrow> h AND NOT DELETED_HASH_BIT = h"
proof -
  assume "h AND DELETED_HASH_BIT = 0"
  then have "\<not> bit h 31" using and_DELETED_iff by blast
  then show ?thesis
    by (intro bit_eqI) (auto simp: bit_and_iff bit_not_iff bit_DELETED_HASH_BIT)
qed

lemma ideal_pos_mod: "h AND DELETED_HASH_BIT = 0 \<Longrightarrow> unat h mod m_capacity t = ideal_pos t h"
  by (simp add: ideal_pos_def and_not_DELETED_id)

section \<open>The insert loop keeps the invariant\<close>

lemma place_fields:
  "m_capacity (place t pos h k v) = m_capacity t"
  "hashes (place t pos h k v) = (hashes t)(pos := h)"
  "keys (place t pos h k v) = (keys t)(pos := k)"
  "vals (place t pos h k v) = (vals t)(pos := v)"
  "m_num_elements (place t pos h k v) = m_num_elements t"
  by (simp_all add: place_def)

lemma ideal_pos_cong: "m_capacity t' = m_capacity t \<Longrightarrow> ideal_pos t' h = ideal_pos t h"
  by (simp add: ideal_pos_def)

lemma probe_distance_cong:
  "m_capacity t' = m_capacity t \<Longrightarrow>
     hashmap_get_probe_distance t' p h = hashmap_get_probe_distance t p h"
  by (simp add: hashmap_get_probe_distance_def)

lemma robin_hood_count_update:
  "robin_hood (t\<lparr>m_num_elements := x\<rparr>) = robin_hood t"
  by (simp add: robin_hood_def no_tombstones_def probe_invariant_def distinct_entries_def
        path_ok_def probe_dist_def ideal_pos_def hashmap_get_probe_distance_def)

lemma holds_count_update: "holds (t\<lparr>m_num_elements := x\<rparr>) = holds t"
  by (simp add: holds_def fun_eq_iff)

lemma occupied_count_update: "occupied (t\<lparr>m_num_elements := x\<rparr>) = occupied t"
  by (simp add: occupied_def)

lemma holds_place:
  assumes "pos < m_capacity t" "h \<noteq> EMPTY_HASH"
  shows "holds (place t pos h k v) h' k' v' \<longleftrightarrow>
           (h' = h \<and> k' = k \<and> v' = v)
           \<or> (\<exists>p<m_capacity t. p \<noteq> pos \<and> hashes t p = h' \<and> h' \<noteq> EMPTY_HASH
                  \<and> keys t p = k' \<and> vals t p = v')"
  using assms unfolding holds_def place_fields by auto

lemma occupied_place:
  assumes "pos < m_capacity t" "h \<noteq> EMPTY_HASH"
  shows "occupied (place t pos h k v) = insert pos (occupied t)"
  using assms unfolding occupied_def place_fields by auto

text \<open>Storing an entry where its own probe arrives keeps the probe invariant,
  provided no other probe passes that slot at a larger distance.\<close>

lemma probe_invariant_place:
  assumes cap: "0 < m_capacity t" "m_capacity t \<le> 2147483648"
    and inv: "probe_invariant t"
    and h: "h \<noteq> EMPTY_HASH"
    and pos: "pos = (ideal_pos t h + d) mod m_capacity t" "d < m_capacity t"
    and path: "path_ok t (ideal_pos t h) d"
    and dom: "\<forall>p<m_capacity t. hashes t p \<noteq> EMPTY_HASH \<longrightarrow>
               (\<forall>j<probe_dist t p. (ideal_pos t (hashes t p) + j) mod m_capacity t = pos \<longrightarrow> j \<le> d)"
  shows "probe_invariant (place t pos h k v)"
proof -
  let ?t = "place t pos h k v"
  let ?c = "m_capacity t"
  have poslt: "pos < ?c" using pos cap by simp
  have il: "ideal_pos t h < ?c" using cap(1) by (rule ideal_pos_less)
  have dpos: "(pos + ?c - ideal_pos t h) mod ?c = d"
    unfolding pos(1) using il pos(2) by (rule path_pos_dist)
  have dle: "d \<le> hashmap_get_probe_distance t pos h"
    using probe_distance_ge[OF cap poslt, of h] dpos by simp
  have pd: "\<And>q x. hashmap_get_probe_distance ?t q x = hashmap_get_probe_distance t q x"
    by (rule probe_distance_cong) (simp add: place_fields)
  have ip: "\<And>x. ideal_pos ?t x = ideal_pos t x"
    by (rule ideal_pos_cong) (simp add: place_fields)
  show ?thesis
    unfolding probe_invariant_def
  proof (intro allI impI)
    fix p assume p: "p < m_capacity ?t" and ne: "hashes ?t p \<noteq> EMPTY_HASH"
    show "path_ok ?t (ideal_pos ?t (hashes ?t p)) (probe_dist ?t p)"
    proof (cases "p = pos")
      case True
      then have hp: "hashes ?t p = h" by (simp add: place_fields)
      have pdist: "probe_dist ?t p = d"
        unfolding probe_dist_def hp ip using True dpos by (simp add: place_fields)
      have "path_ok ?t (ideal_pos t h) d"
        unfolding path_ok_def
      proof (intro allI impI)
        fix j assume j: "j < d"
        let ?q = "(ideal_pos t h + j) mod m_capacity ?t"
        have "?q \<noteq> pos"
        proof
          assume "?q = pos"
          then have "(ideal_pos t h + j) mod ?c = (ideal_pos t h + d) mod ?c"
            using pos(1) by (simp add: place_fields)
          from path_pos_inj[OF _ pos(2) this] j pos(2) show False by simp
        qed
        then have same: "hashes ?t ?q = hashes t ?q" by (simp add: place_fields)
        from path j have "hashes t ((ideal_pos t h + j) mod ?c) \<noteq> EMPTY_HASH
            \<and> j \<le> hashmap_get_probe_distance t ((ideal_pos t h + j) mod ?c)
                     (hashes t ((ideal_pos t h + j) mod ?c))"
          by (simp add: path_ok_def)
        then show "hashes ?t ?q \<noteq> EMPTY_HASH \<and> j \<le> hashmap_get_probe_distance ?t ?q (hashes ?t ?q)"
          unfolding same pd by (simp add: place_fields)
      qed
      then show ?thesis unfolding hp ip pdist .
    next
      case False
      then have hp: "hashes ?t p = hashes t p" by (simp add: place_fields)
      from p have plt: "p < ?c" by (simp add: place_fields)
      from ne hp have ne': "hashes t p \<noteq> EMPTY_HASH" by simp
      have pdist: "probe_dist ?t p = probe_dist t p"
        unfolding probe_dist_def hp ip by (simp add: place_fields)
      from inv plt ne' have old: "path_ok t (ideal_pos t (hashes t p)) (probe_dist t p)"
        by (simp add: probe_invariant_def)
      have "path_ok ?t (ideal_pos t (hashes t p)) (probe_dist t p)"
        unfolding path_ok_def
      proof (intro allI impI)
        fix j assume j: "j < probe_dist t p"
        let ?q = "(ideal_pos t (hashes t p) + j) mod m_capacity ?t"
        have q: "?q = (ideal_pos t (hashes t p) + j) mod ?c" by (simp add: place_fields)
        from old j have o: "hashes t ?q \<noteq> EMPTY_HASH"
            "j \<le> hashmap_get_probe_distance t ?q (hashes t ?q)"
          unfolding q by (simp_all add: path_ok_def)
        show "hashes ?t ?q \<noteq> EMPTY_HASH \<and> j \<le> hashmap_get_probe_distance ?t ?q (hashes ?t ?q)"
        proof (cases "?q = pos")
          case True
          then have hq: "hashes ?t ?q = h" by (simp add: place_fields)
          from dom plt ne' j True have "j \<le> d" unfolding q by blast
          then show ?thesis unfolding hq pd using h dle True by simp
        next
          case False
          then have "hashes ?t ?q = hashes t ?q" by (simp add: place_fields)
          then show ?thesis unfolding pd using o by simp
        qed
      qed
      then show ?thesis unfolding hp ip pdist .
    qed
  qed
qed

lemma distinct_entries_place:
  assumes "distinct_entries t" "absent t h k"
  shows "distinct_entries (place t pos h k v)"
  using assms unfolding distinct_entries_def absent_def place_fields
  by (auto split: if_splits)

lemma no_tombstones_place:
  assumes "no_tombstones t" "h AND DELETED_HASH_BIT = 0"
  shows "no_tombstones (place t pos h k v)"
  using assms unfolding no_tombstones_def place_fields by auto

lemma shift_pos: "(Suc pos mod c + n) mod c = (pos + Suc n) mod (c::nat)"
proof -
  have "(Suc pos mod c + n) mod c = (Suc pos + n) mod c" by (simp add: mod_add_left_eq)
  then show ?thesis by simp
qed

lemma empties_shift:
  assumes "hashes t ((pos + Suc n) mod c) = EMPTY_HASH"
    "\<forall>j<Suc n. hashes t ((pos + j) mod c) \<noteq> EMPTY_HASH"
  shows "hashes t ((Suc pos mod c + n) mod c) = EMPTY_HASH"
    "\<forall>j<n. hashes t ((Suc pos mod c + j) mod c) \<noteq> EMPTY_HASH"
  using assms unfolding shift_pos by auto

lemma path_ok_Suc:
  assumes "path_ok t i d" "hashes t ((i + d) mod m_capacity t) \<noteq> EMPTY_HASH"
    "d \<le> hashmap_get_probe_distance t ((i + d) mod m_capacity t)
            (hashes t ((i + d) mod m_capacity t))"
  shows "path_ok t i (Suc d)"
  using assms unfolding path_ok_def by (auto simp: less_Suc_eq)

lemma path_ok_place_other:
  assumes "path_ok t i n" "\<forall>j<n. (i + j) mod m_capacity t \<noteq> pos"
  shows "path_ok (place t pos h k v) i n"
  using assms unfolding path_ok_def
  by (simp add: place_fields probe_distance_cong[of "place t pos h k v" t])

lemma robin_hood_place:
  assumes rh: "robin_hood t"
    and h: "h \<noteq> EMPTY_HASH" "h AND DELETED_HASH_BIT = 0" "absent t h k"
    and pos: "pos = (ideal_pos t h + d) mod m_capacity t" "d < m_capacity t"
    and path: "path_ok t (ideal_pos t h) d"
    and dom: "\<forall>p<m_capacity t. hashes t p \<noteq> EMPTY_HASH \<longrightarrow>
               (\<forall>j<probe_dist t p. (ideal_pos t (hashes t p) + j) mod m_capacity t = pos \<longrightarrow> j \<le> d)"
  shows "robin_hood (place t pos h k v)"
proof -
  from rh have cap: "0 < m_capacity t" "m_capacity t \<le> 2147483648"
    and nt: "no_tombstones t" and pi: "probe_invariant t" and de: "distinct_entries t"
    by (simp_all add: robin_hood_def)
  have "probe_invariant (place t pos h k v)"
    using cap pi h(1) pos path dom by (rule probe_invariant_place)
  moreover have "distinct_entries (place t pos h k v)"
    using de h(3) by (rule distinct_entries_place)
  moreover have "no_tombstones (place t pos h k v)"
    using nt h(2) by (rule no_tombstones_place)
  ultimately show ?thesis using cap by (simp add: robin_hood_def place_fields)
qed

text \<open>In a table that satisfies the invariant, a probe that passes an occupied
  slot does so at a distance of at most that slot's stored probe distance.\<close>

lemma passing_distance:
  assumes "probe_invariant t" "p < m_capacity t" "hashes t p \<noteq> EMPTY_HASH"
    "j < probe_dist t p" "(ideal_pos t (hashes t p) + j) mod m_capacity t = q"
  shows "hashes t q \<noteq> EMPTY_HASH \<and> j \<le> hashmap_get_probe_distance t q (hashes t q)"
  using assms unfolding probe_invariant_def path_ok_def by blast

lemma insert_loop_correct:
  assumes "robin_hood t" "h \<noteq> EMPTY_HASH" "h AND DELETED_HASH_BIT = 0" "absent t h k"
    "pos = (ideal_pos t h + d) mod m_capacity t" "path_ok t (ideal_pos t h) d"
    "hashes t ((pos + n) mod m_capacity t) = EMPTY_HASH"
    "\<forall>j<n. hashes t ((pos + j) mod m_capacity t) \<noteq> EMPTY_HASH"
    "d + n < m_capacity t"
  shows "\<exists>t'. hashmap_insert_loop t h k v pos d = Some t' \<and> robin_hood t'
     \<and> m_capacity t' = m_capacity t
     \<and> (\<forall>h' k' v'. holds t' h' k' v' \<longleftrightarrow> holds t h' k' v' \<or> (h' = h \<and> k' = k \<and> v' = v))
     \<and> occupied t' = insert ((pos + n) mod m_capacity t) (occupied t)
     \<and> m_num_elements t' = m_num_elements t + 1"
  using assms
proof (induction n arbitrary: t h k v pos d)
  case 0
  let ?c = "m_capacity t"
  from "0.prems"(1) have cap: "0 < ?c" "?c \<le> 2147483648" and pi: "probe_invariant t"
    by (simp_all add: robin_hood_def)
  have poslt: "pos < ?c" using "0.prems"(5) cap by simp
  have empty: "hashes t pos = EMPTY_HASH" using "0.prems"(7) poslt by simp
  have dlt: "d < ?c" using "0.prems"(9) by simp
  let ?t' = "(place t pos h k v)\<lparr>m_num_elements := m_num_elements t + 1\<rparr>"
  have run: "hashmap_insert_loop t h k v pos d = Some ?t'"
    using empty by (subst hashmap_insert_loop.simps) simp
  have dom: "\<forall>p<?c. hashes t p \<noteq> EMPTY_HASH \<longrightarrow>
               (\<forall>j<probe_dist t p. (ideal_pos t (hashes t p) + j) mod ?c = pos \<longrightarrow> j \<le> d)"
    using passing_distance[OF pi] empty by blast
  have rh: "robin_hood (place t pos h k v)"
    using "0.prems"(1,2,3,4,5) dlt "0.prems"(6) dom by (rule robin_hood_place)
  have hl: "\<forall>h' k' v'. holds (place t pos h k v) h' k' v' \<longleftrightarrow>
              holds t h' k' v' \<or> (h' = h \<and> k' = k \<and> v' = v)"
    unfolding holds_place[OF poslt "0.prems"(2)] using empty by (auto simp: holds_def)
  have oc: "occupied (place t pos h k v) = insert pos (occupied t)"
    using poslt "0.prems"(2) by (rule occupied_place)
  show ?case
    unfolding run using rh hl oc poslt
    by (simp add: robin_hood_count_update holds_count_update occupied_count_update place_fields)
next
  case (Suc n)
  let ?c = "m_capacity t"
  note rh = Suc.prems(1) and hne = Suc.prems(2) and hnd = Suc.prems(3) and ab = Suc.prems(4)
    and posd = Suc.prems(5) and path = Suc.prems(6)
  from rh have cap: "0 < ?c" "?c \<le> 2147483648" and pi: "probe_invariant t"
    and nt: "no_tombstones t" and de: "distinct_entries t"
    by (simp_all add: robin_hood_def)
  have poslt: "pos < ?c" using posd cap by simp
  have occ: "hashes t pos \<noteq> EMPTY_HASH" using Suc.prems(8) poslt by force
  have dlt: "d < ?c" using Suc.prems(9) by simp
  let ?hx = "hashes t pos" and ?kx = "keys t pos" and ?vx = "vals t pos"
  let ?e = "hashmap_get_probe_distance t pos ?hx"
  let ?np = "Suc pos mod ?c"
  have np: "(Suc pos mod u32_modulus) mod ?c = ?np" using poslt cap(2) by (rule next_pos_mod)
  have nodel: "?hx AND DELETED_HASH_BIT = 0" using nt poslt by (simp add: no_tombstones_def)
  have e1: "hashes t ((?np + n) mod ?c) = EMPTY_HASH"
    and e2: "\<forall>j<n. hashes t ((?np + j) mod ?c) \<noteq> EMPTY_HASH"
    using empties_shift[OF Suc.prems(7) Suc.prems(8)] by simp_all
  have tgt: "(?np + n) mod ?c = (pos + Suc n) mod ?c" by (rule shift_pos)
  show ?case
  proof (cases "?e < d")
    case False
    have nd: "Suc d mod u32_modulus = Suc d" using dlt cap(2) by (intro next_dist_mod) simp
    have run: "hashmap_insert_loop t h k v pos d = hashmap_insert_loop t h k v ?np (Suc d)"
      using occ False by (subst hashmap_insert_loop.simps) (simp add: Let_def np nd)
    have p1: "?np = (ideal_pos t h + Suc d) mod ?c" unfolding posd by (rule path_pos_Suc)
    have p2: "path_ok t (ideal_pos t h) (Suc d)"
      using path occ False unfolding posd by (intro path_ok_Suc) simp_all
    have "d + Suc n < ?c" using Suc.prems(9) .
    then have p3: "Suc d + n < ?c" by simp
    from Suc.IH[OF rh hne hnd ab p1 p2 e1 e2 p3, of v]
    show ?thesis unfolding run tgt .
  next
    case True
    let ?t1 = "place t pos h k v"
    have elt: "?e < ?c" using True dlt by simp
    from probe_distance_small[OF cap poslt elt]
    have ix: "ideal_pos t ?hx \<le> pos" and ee: "?e = pos - ideal_pos t ?hx" by simp_all
    have nd: "Suc ?e mod u32_modulus = Suc ?e" using elt cap(2) by (intro next_dist_mod) simp
    have run: "hashmap_insert_loop t h k v pos d = hashmap_insert_loop ?t1 ?hx ?kx ?vx ?np (Suc ?e)"
      using occ True nodel by (subst hashmap_insert_loop.simps) (simp add: Let_def np nd)
    have c1: "m_capacity ?t1 = ?c" by (simp add: place_fields)
    have pdx: "probe_dist t pos = ?e"
      unfolding probe_dist_def ee using ix poslt by (rule sub_mod_unwrapped)
    have dle: "d \<le> hashmap_get_probe_distance t pos h"
    proof -
      have "(pos + ?c - ideal_pos t h) mod ?c = d"
        unfolding posd using ideal_pos_less[OF cap(1)] dlt by (rule path_pos_dist)
      then show ?thesis using probe_distance_ge[OF cap poslt, of h] by simp
    qed
    have dom: "\<forall>p<?c. hashes t p \<noteq> EMPTY_HASH \<longrightarrow>
               (\<forall>j<probe_dist t p. (ideal_pos t (hashes t p) + j) mod ?c = pos \<longrightarrow> j \<le> d)"
      using passing_distance[OF pi] True by fastforce
    have rh1: "robin_hood ?t1"
      using rh hne hnd ab posd dlt path dom by (rule robin_hood_place)
    have ab1: "absent ?t1 ?hx ?kx"
      unfolding absent_def
    proof (intro allI impI)
      fix q assume q: "q < m_capacity ?t1"
      show "\<not> (hashes ?t1 q = ?hx \<and> keys ?t1 q = ?kx)"
      proof (cases "q = pos")
        case True
        then show ?thesis using ab poslt by (auto simp: place_fields absent_def)
      next
        case False
        then show ?thesis using de q poslt occ
          by (auto simp: place_fields distinct_entries_def)
      qed
    qed
    have ip1: "ideal_pos ?t1 ?hx = ideal_pos t ?hx" by (rule ideal_pos_cong) (rule c1)
    have sum: "ideal_pos t ?hx + ?e = pos" using ix ee by simp
    have p1: "?np = (ideal_pos ?t1 ?hx + Suc ?e) mod m_capacity ?t1"
      unfolding ip1 c1 using sum by simp
    have old: "path_ok t (ideal_pos t ?hx) ?e"
      using pi poslt occ pdx by (auto simp: probe_invariant_def)
    have "path_ok ?t1 (ideal_pos t ?hx) ?e"
    proof (rule path_ok_place_other[OF old], intro allI impI)
      fix j assume "j < ?e"
      then have "ideal_pos t ?hx + j < pos" using sum by simp
      then show "(ideal_pos t ?hx + j) mod ?c \<noteq> pos" using poslt by simp
    qed
    moreover have "hashes ?t1 ((ideal_pos t ?hx + ?e) mod m_capacity ?t1) \<noteq> EMPTY_HASH"
      unfolding sum c1 using poslt hne by (simp add: place_fields)
    moreover have "?e \<le> hashmap_get_probe_distance ?t1 ((ideal_pos t ?hx + ?e) mod m_capacity ?t1)
            (hashes ?t1 ((ideal_pos t ?hx + ?e) mod m_capacity ?t1))"
      unfolding sum c1 probe_distance_cong[OF c1] using poslt True dle by (simp add: place_fields)
    ultimately have p2: "path_ok ?t1 (ideal_pos ?t1 ?hx) (Suc ?e)"
      unfolding ip1 by (rule path_ok_Suc)
    have far: "(?np + n) mod ?c \<noteq> pos"
    proof
      assume "(?np + n) mod ?c = pos"
      then have "(pos + Suc n) mod ?c = (pos + 0) mod ?c" unfolding tgt using poslt by simp
      from path_pos_inj[OF _ cap(1) this] Suc.prems(9) show False by simp
    qed
    have e1': "hashes ?t1 ((?np + n) mod m_capacity ?t1) = EMPTY_HASH"
      unfolding c1 using e1 far by (simp add: place_fields)
    have e2': "\<forall>j<n. hashes ?t1 ((?np + j) mod m_capacity ?t1) \<noteq> EMPTY_HASH"
      unfolding c1 using e2 hne by (simp add: place_fields)
    have p3: "Suc ?e + n < m_capacity ?t1" unfolding c1 using True Suc.prems(9) by simp
    from Suc.IH[OF rh1 occ nodel ab1 p1 p2 e1' e2' p3, of ?vx]
    obtain t' where r: "hashmap_insert_loop ?t1 ?hx ?kx ?vx ?np (Suc ?e) = Some t'"
      and rh': "robin_hood t'" and c': "m_capacity t' = ?c"
      and hl': "\<forall>h' k' v'. holds t' h' k' v' \<longleftrightarrow>
                  holds ?t1 h' k' v' \<or> (h' = ?hx \<and> k' = ?kx \<and> v' = ?vx)"
      and oc': "occupied t' = insert ((?np + n) mod ?c) (occupied ?t1)"
      and n': "m_num_elements t' = m_num_elements t + 1"
      unfolding c1 by (auto simp: place_fields)
    have hl: "\<forall>h' k' v'. holds t' h' k' v' \<longleftrightarrow> holds t h' k' v' \<or> (h' = h \<and> k' = k \<and> v' = v)"
    proof (intro allI)
      fix h' k' v'
      have "holds t h' k' v' \<longleftrightarrow>
          (\<exists>p<?c. p \<noteq> pos \<and> hashes t p = h' \<and> h' \<noteq> EMPTY_HASH \<and> keys t p = k' \<and> vals t p = v')
          \<or> (h' = ?hx \<and> k' = ?kx \<and> v' = ?vx)"
        unfolding holds_def using poslt occ by auto
      then show "holds t' h' k' v' \<longleftrightarrow> holds t h' k' v' \<or> (h' = h \<and> k' = k \<and> v' = v)"
        unfolding hl'[rule_format] holds_place[OF poslt hne] by blast
    qed
    have "pos \<in> occupied t" using poslt occ by (simp add: occupied_def)
    then have oc: "occupied t' = insert ((pos + Suc n) mod ?c) (occupied t)"
      unfolding oc' tgt occupied_place[OF poslt hne] by (simp add: insert_absorb)
    show ?thesis unfolding run r using rh' c' hl oc n' by simp
  qed
qed

section \<open>insert and set on a table with room\<close>

lemma first_empty:
  assumes "q < c" "pos < (c::nat)" "hashes t q = EMPTY_HASH"
  shows "\<exists>n<c. hashes t ((pos + n) mod c) = EMPTY_HASH
            \<and> (\<forall>j<n. hashes t ((pos + j) mod c) \<noteq> EMPTY_HASH)"
proof -
  define P where "P n \<longleftrightarrow> hashes t ((pos + n) mod c) = EMPTY_HASH" for n
  let ?n0 = "(q + c - pos) mod c"
  have "(pos + ?n0) mod c = q" using assms(1,2) by (rule path_pos_back)
  then have P0: "P ?n0" using assms(3) by (simp add: P_def)
  have a: "P (Least P)" using P0 by (rule LeastI)
  have "Least P \<le> ?n0" using P0 by (rule Least_le)
  moreover have "?n0 < c" using assms(1) by simp
  ultimately have b: "Least P < c" by simp
  have c: "\<forall>j<Least P. \<not> P j" using not_less_Least by blast
  show ?thesis using a b c unfolding P_def by blast
qed

lemma path_ok_0: "path_ok t i 0"
  by (simp add: path_ok_def)

lemma hashmap_insert_correct:
  assumes rh: "robin_hood t" and h: "h \<noteq> EMPTY_HASH" "h AND DELETED_HASH_BIT = 0"
    and ab: "absent t h k" and room: "\<exists>q<m_capacity t. hashes t q = EMPTY_HASH"
  shows "\<exists>t' q. hashmap_insert t h k v = Some t' \<and> robin_hood t'
     \<and> m_capacity t' = m_capacity t
     \<and> (\<forall>h' k' v'. holds t' h' k' v' \<longleftrightarrow> holds t h' k' v' \<or> (h' = h \<and> k' = k \<and> v' = v))
     \<and> q < m_capacity t \<and> q \<notin> occupied t \<and> occupied t' = insert q (occupied t)
     \<and> m_num_elements t' = m_num_elements t + 1"
proof -
  let ?c = "m_capacity t"
  from rh have cap: "0 < ?c" by (simp add: robin_hood_def)
  let ?pos = "unat h mod ?c"
  have pos: "?pos = (ideal_pos t h + 0) mod ?c"
    using ideal_pos_mod[OF h(2), of t] ideal_pos_less[OF cap, of h] by simp
  have poslt: "?pos < ?c" using cap by simp
  from room obtain q where q: "q < ?c" "hashes t q = EMPTY_HASH" by blast
  from first_empty[OF q(1) poslt q(2)] obtain n where n: "n < ?c"
    "hashes t ((?pos + n) mod ?c) = EMPTY_HASH"
    "\<forall>j<n. hashes t ((?pos + j) mod ?c) \<noteq> EMPTY_HASH" by blast
  have dn: "0 + n < ?c" using n(1) by simp
  from insert_loop_correct[OF rh h ab pos path_ok_0 n(2) n(3) dn, of v]
  obtain t' where t': "hashmap_insert_loop t h k v ?pos 0 = Some t'" "robin_hood t'"
    "m_capacity t' = ?c"
    "\<forall>h' k' v'. holds t' h' k' v' \<longleftrightarrow> holds t h' k' v' \<or> (h' = h \<and> k' = k \<and> v' = v)"
    "occupied t' = insert ((?pos + n) mod ?c) (occupied t)"
    "m_num_elements t' = m_num_elements t + 1"
    by blast
  have "(?pos + n) mod ?c < ?c" using cap by simp
  moreover have "(?pos + n) mod ?c \<notin> occupied t" using n(2) by (simp add: occupied_def)
  moreover have "hashmap_insert t h k v = Some t'" using t'(1) cap by (simp add: hashmap_insert_def)
  ultimately show ?thesis using t'(2-6) by blast
qed

lemma hashmap_lookup_pos_present:
  assumes rh: "robin_hood t"
    and p: "p < m_capacity t" "hashes t p = h" "h \<noteq> EMPTY_HASH" "keys t p = k"
  shows "hashmap_lookup_pos t h k = Some (True, p)"
proof -
  from rh have cap: "0 < m_capacity t" and nt: "no_tombstones t" by (simp_all add: robin_hood_def)
  have "h AND DELETED_HASH_BIT = 0" using nt p(1,2) by (auto simp: no_tombstones_def)
  then have pos: "unat h mod m_capacity t = (ideal_pos t h + 0) mod m_capacity t"
    using ideal_pos_mod[of h t] ideal_pos_less[OF cap, of h] by simp
  have "hashmap_lookup_loop t h k ((ideal_pos t h + 0) mod m_capacity t) 0
           = Some (True, p, probe_dist t p)"
    using rh p by (intro lookup_loop_finds) simp_all
  then show ?thesis using cap unfolding pos[symmetric] by (simp add: hashmap_lookup_pos_def)
qed

lemma hashmap_lookup_pos_absent:
  assumes rh: "robin_hood t" and ab: "absent t h k"
  shows "\<exists>p. hashmap_lookup_pos t h k = Some (False, p)"
proof -
  from rh have cap: "0 < m_capacity t" "m_capacity t \<le> 2147483648" by (simp_all add: robin_hood_def)
  from hashmap_lookup_pos_returns[OF cap, of h k]
  obtain found p where r: "hashmap_lookup_pos t h k = Some (found, p)" "p < m_capacity t"
    "found \<longrightarrow> hashes t p = h \<and> keys t p = k" by blast
  with ab have "\<not> found" by (auto simp: absent_def)
  with r(1) show ?thesis by auto
qed

lemma robin_hood_vals_update: "robin_hood (t\<lparr>vals := x\<rparr>) = robin_hood t"
  by (simp add: robin_hood_def no_tombstones_def probe_invariant_def distinct_entries_def
        path_ok_def probe_dist_def ideal_pos_def hashmap_get_probe_distance_def)

lemma occupied_vals_update: "occupied (t\<lparr>vals := x\<rparr>) = occupied t"
  by (simp add: occupied_def)

lemma hashmap_set_correct:
  assumes rh: "robin_hood t" and hn: "hashmap_hash h \<noteq> EMPTY_HASH"
    and room: "(\<exists>v0. holds t (hashmap_hash h) k v0) \<or> (\<exists>q<m_capacity t. hashes t q = EMPTY_HASH)"
  shows "\<exists>t'. hashmap_set t h k v = Some t' \<and> robin_hood t'
     \<and> m_capacity t' = m_capacity t
     \<and> (\<forall>h' k' v'. holds t' h' k' v' \<longleftrightarrow>
           (if h' = hashmap_hash h \<and> k' = k then v' = v else holds t h' k' v'))
     \<and> (if \<exists>v0. holds t (hashmap_hash h) k v0 then occupied t' = occupied t
         else \<exists>q<m_capacity t. q \<notin> occupied t \<and> occupied t' = insert q (occupied t))
     \<and> m_num_elements t' =
         (if \<exists>v0. holds t (hashmap_hash h) k v0 then m_num_elements t
          else m_num_elements t + 1)"
proof (cases "\<exists>v0. holds t (hashmap_hash h) k v0")
  case True
  let ?hn = "hashmap_hash h"
  from True obtain p where p: "p < m_capacity t" "hashes t p = ?hn" "keys t p = k"
    by (auto simp: holds_def)
  from hashmap_lookup_pos_present[OF rh p(1,2) hn p(3)]
  have run: "hashmap_set t h k v = Some (t\<lparr>vals := (vals t)(p := v)\<rparr>)"
    by (simp add: hashmap_set_def)
  from rh have de: "distinct_entries t" by (simp add: robin_hood_def)
  have hl: "\<forall>h' k' v'. holds (t\<lparr>vals := (vals t)(p := v)\<rparr>) h' k' v' \<longleftrightarrow>
           (if h' = ?hn \<and> k' = k then v' = v else holds t h' k' v')"
  proof (intro allI)
    fix h' k' v'
    show "holds (t\<lparr>vals := (vals t)(p := v)\<rparr>) h' k' v' \<longleftrightarrow>
           (if h' = ?hn \<and> k' = k then v' = v else holds t h' k' v')"
    proof (cases "h' = ?hn \<and> k' = k")
      case True
      have uniq: "\<And>q. q < m_capacity t \<Longrightarrow> hashes t q = ?hn \<Longrightarrow> keys t q = k \<Longrightarrow> q = p"
      proof -
        fix q assume "q < m_capacity t" "hashes t q = ?hn" "keys t q = k"
        with de[unfolded distinct_entries_def, rule_format, of p q] p hn show "q = p" by simp
      qed
      have "holds (t\<lparr>vals := (vals t)(p := v)\<rparr>) ?hn k v' \<longleftrightarrow> v' = v"
      proof
        assume "holds (t\<lparr>vals := (vals t)(p := v)\<rparr>) ?hn k v'"
        then obtain q where q: "q < m_capacity t" "hashes t q = ?hn" "keys t q = k"
          "((vals t)(p := v)) q = v'" by (auto simp: holds_def)
        from uniq[OF q(1-3)] q(4) show "v' = v" by simp
      next
        assume "v' = v"
        then show "holds (t\<lparr>vals := (vals t)(p := v)\<rparr>) ?hn k v'"
          unfolding holds_def using p hn by (intro exI[of _ p]) simp
      qed
      then show ?thesis using True by simp
    next
      case False
      have "holds (t\<lparr>vals := (vals t)(p := v)\<rparr>) h' k' v' \<longleftrightarrow> holds t h' k' v'"
      proof
        assume "holds (t\<lparr>vals := (vals t)(p := v)\<rparr>) h' k' v'"
        then obtain q where q: "q < m_capacity t" "hashes t q = h'" "h' \<noteq> EMPTY_HASH"
          "keys t q = k'" "((vals t)(p := v)) q = v'" by (auto simp: holds_def)
        with False p have "q \<noteq> p" by auto
        with q show "holds t h' k' v'" unfolding holds_def by (intro exI[of _ q]) simp
      next
        assume "holds t h' k' v'"
        then obtain q where q: "q < m_capacity t" "hashes t q = h'" "h' \<noteq> EMPTY_HASH"
          "keys t q = k'" "vals t q = v'" by (auto simp: holds_def)
        with False p have "q \<noteq> p" by auto
        with q show "holds (t\<lparr>vals := (vals t)(p := v)\<rparr>) h' k' v'"
          unfolding holds_def by (intro exI[of _ q]) simp
      qed
      then show ?thesis using False by auto
    qed
  qed
  show ?thesis unfolding run using rh hl True
    by (simp add: robin_hood_vals_update occupied_vals_update)
next
  case False
  let ?hn = "hashmap_hash h"
  from False hn have ab: "absent t ?hn k" by (auto simp: absent_def holds_def)
  from hashmap_lookup_pos_absent[OF rh ab] obtain p where
    "hashmap_lookup_pos t ?hn k = Some (False, p)" by blast
  then have run: "hashmap_set t h k v = hashmap_insert t ?hn k v" by (simp add: hashmap_set_def)
  from False room have room': "\<exists>q<m_capacity t. hashes t q = EMPTY_HASH" by blast
  from hashmap_insert_correct[OF rh hn hashmap_hash_no_DELETED ab room', of v]
  obtain t' q where t': "hashmap_insert t ?hn k v = Some t'" "robin_hood t'"
    "m_capacity t' = m_capacity t"
    "\<forall>h' k' v'. holds t' h' k' v' \<longleftrightarrow> holds t h' k' v' \<or> (h' = ?hn \<and> k' = k \<and> v' = v)"
    "q < m_capacity t" "q \<notin> occupied t" "occupied t' = insert q (occupied t)"
    "m_num_elements t' = m_num_elements t + 1"
    by blast
  have "\<forall>h' k' v'. holds t' h' k' v' \<longleftrightarrow>
           (if h' = ?hn \<and> k' = k then v' = v else holds t h' k' v')"
    using t'(4) False by auto
  then show ?thesis unfolding run using t' False by auto
qed

section \<open>Runs of set calls\<close>

lemma written_last:
  "written m xs (hashmap_hash h, k) =
     (case last_written xs h k of Some w \<Rightarrow> Some w | None \<Rightarrow> m (hashmap_hash h, k))"
proof (induction xs arbitrary: m)
  case Nil
  then show ?case by simp
next
  case (Cons x xs)
  obtain h' k' v' where x: "x = (h', k', v')" by (cases x)
  show ?case unfolding x by (simp add: Cons.IH split: option.splits)
qed

lemma last_written_mem: "(h, k, v) \<in> set xs \<Longrightarrow> \<exists>w. last_written xs h k = Some w"
proof (induction xs)
  case Nil
  then show ?case by simp
next
  case (Cons x xs)
  obtain h' k' v' where x: "x = (h', k', v')" by (cases x)
  show ?case using Cons unfolding x by (auto split: option.splits)
qed

lemma create_fields:
  "m_capacity (hashmap_create sk sv bs hs ks vs) = bs div (sk + sv + 4)"
  "p < bs div (sk + sv + 4) \<Longrightarrow> hashes (hashmap_create sk sv bs hs ks vs) p = EMPTY_HASH"
  by (simp_all add: hashmap_create_def Let_def clear_hashes_apply)

lemma create_robin_hood:
  assumes "t0 = hashmap_create sk sv bs hs ks vs" "0 < m_capacity t0" "m_capacity t0 \<le> 2147483648"
  shows "robin_hood t0" "content_is t0 Map.empty" "occupied t0 = {}"
proof -
  have e: "\<And>p. p < m_capacity t0 \<Longrightarrow> hashes t0 p = EMPTY_HASH"
    unfolding assms(1) by (simp add: create_fields)
  show "robin_hood t0"
    using assms(2,3) e
    by (simp add: robin_hood_def no_tombstones_def probe_invariant_def distinct_entries_def
          EMPTY_HASH_def)
  show "content_is t0 Map.empty" using e by (auto simp: content_is_def holds_def)
  show "occupied t0 = {}" using e by (auto simp: occupied_def)
qed

lemma occupied_finite: "finite (occupied t)" "card (occupied t) \<le> m_capacity t"
proof -
  have sub: "occupied t \<subseteq> {..<m_capacity t}" by (auto simp: occupied_def)
  then show "finite (occupied t)" by (rule finite_subset) simp
  from card_mono[OF _ sub] show "card (occupied t) \<le> m_capacity t" by simp
qed

lemma occupied_room:
  assumes "card (occupied t) < m_capacity t"
  shows "\<exists>q<m_capacity t. hashes t q = EMPTY_HASH"
proof (rule ccontr)
  assume "\<not> (\<exists>q<m_capacity t. hashes t q = EMPTY_HASH)"
  then have "occupied t = {..<m_capacity t}" by (auto simp: occupied_def)
  then show False using assms by simp
qed

lemma run_sets:
  assumes "robin_hood t" "content_is t m" "finite (dom m)" "card (occupied t) = card (dom m)"
    "\<forall>x\<in>set xs. hashmap_hash (fst x) \<noteq> EMPTY_HASH"
    "card (dom m \<union> (\<lambda>x. (hashmap_hash (fst x), fst (snd x))) ` set xs) \<le> m_capacity t"
  shows "\<exists>t'. run_calls t (set_calls xs) = Some t' \<and> robin_hood t'
           \<and> m_capacity t' = m_capacity t \<and> content_is t' (written m xs)"
  using assms
proof (induction xs arbitrary: t m)
  case Nil
  then show ?case by simp
next
  case (Cons x xs)
  obtain h k v where x: "x = (h, k, v)" by (cases x)
  let ?key = "(hashmap_hash h, k)"
  let ?pairs = "\<lambda>ys. (\<lambda>x. (hashmap_hash (fst x), fst (snd x))) ` set ys"
  note rh = Cons.prems(1) and ci = Cons.prems(2) and fin = Cons.prems(3) and cnt = Cons.prems(4)
  have hn: "hashmap_hash h \<noteq> EMPTY_HASH" using Cons.prems(5) x by simp
  have un: "dom m \<union> ?pairs (x # xs) = insert ?key (dom m) \<union> ?pairs xs" unfolding x by auto
  have finS: "finite (dom m \<union> ?pairs (x # xs))" using fin by simp
  have present: "(\<exists>v0. holds t (hashmap_hash h) k v0) \<longleftrightarrow> ?key \<in> dom m"
    using ci by (auto simp: content_is_def)
  have room: "(\<exists>v0. holds t (hashmap_hash h) k v0) \<or> (\<exists>q<m_capacity t. hashes t q = EMPTY_HASH)"
  proof (cases "?key \<in> dom m")
    case True
    then show ?thesis using present by simp
  next
    case False
    then have "card (insert ?key (dom m)) = Suc (card (dom m))" using fin by simp
    moreover have "card (insert ?key (dom m)) \<le> card (dom m \<union> ?pairs (x # xs))"
      using finS unfolding un by (intro card_mono) auto
    ultimately have "card (occupied t) < m_capacity t" using cnt Cons.prems(6) by simp
    then show ?thesis using occupied_room by blast
  qed
  from hashmap_set_correct[OF rh hn room, of v]
  obtain t1 where t1: "hashmap_set t h k v = Some t1" "robin_hood t1" "m_capacity t1 = m_capacity t"
    "\<forall>h' k' v'. holds t1 h' k' v' \<longleftrightarrow>
           (if h' = hashmap_hash h \<and> k' = k then v' = v else holds t h' k' v')"
    "if \<exists>v0. holds t (hashmap_hash h) k v0 then occupied t1 = occupied t
         else \<exists>q<m_capacity t. q \<notin> occupied t \<and> occupied t1 = insert q (occupied t)"
    by blast
  let ?m1 = "m(?key \<mapsto> v)"
  have ci1: "content_is t1 ?m1"
    using t1(4) ci by (auto simp: content_is_def)
  have fin1: "finite (dom ?m1)" using fin by simp
  have cnt1: "card (occupied t1) = card (dom ?m1)"
  proof (cases "?key \<in> dom m")
    case True
    then have "dom ?m1 = dom m" by auto
    moreover have "occupied t1 = occupied t" using t1(5) present True by simp
    ultimately show ?thesis using cnt by simp
  next
    case False
    then obtain q where q: "q \<notin> occupied t" "occupied t1 = insert q (occupied t)"
      using t1(5) present by auto
    have "card (occupied t1) = Suc (card (occupied t))"
      unfolding q(2) using q(1) occupied_finite(1)[of t] by simp
    moreover have "card (dom ?m1) = Suc (card (dom m))" using False fin by simp
    ultimately show ?thesis using cnt by simp
  qed
  have p5: "\<forall>x\<in>set xs. hashmap_hash (fst x) \<noteq> EMPTY_HASH" using Cons.prems(5) by simp
  have p6: "card (dom ?m1 \<union> ?pairs xs) \<le> m_capacity t1"
    using Cons.prems(6) unfolding un t1(3) by simp
  have step: "run_calls t (set_calls (x # xs)) = run_calls t1 (set_calls xs)"
    unfolding x using t1(1) by simp
  have w: "written m (x # xs) = written ?m1 xs" unfolding x by simp
  from Cons.IH[OF t1(2) ci1 fin1 cnt1 p5 p6]
  show ?case unfolding step w t1(3) .
qed

lemma hashmap_hash_nonzero: "hashmap_hash h \<noteq> EMPTY_HASH \<longleftrightarrow> h \<noteq> 2147483648"
proof
  assume "hashmap_hash h \<noteq> EMPTY_HASH"
  then show "h \<noteq> 2147483648"
    by (auto simp: hashmap_hash_def EMPTY_HASH_def DELETED_HASH_BIT_def)
next
  assume ne: "h \<noteq> 2147483648"
  show "hashmap_hash h \<noteq> EMPTY_HASH"
  proof
    assume z: "hashmap_hash h = EMPTY_HASH"
    then have h0: "h \<noteq> 0" by (auto simp: hashmap_hash_0_1 EMPTY_HASH_def)
    from z have "\<And>n. \<not> bit (hashmap_hash h) n" by (simp add: EMPTY_HASH_def)
    then have low: "\<And>n. n \<noteq> 31 \<Longrightarrow> \<not> bit h n" using hashmap_hash_bits[OF h0] by blast
    have "bit h 31"
    proof (rule ccontr)
      assume "\<not> bit h 31"
      with low have "\<And>n. \<not> bit h n" by metis
      then have "h = 0" by (intro bit_eqI) simp
      with h0 show False by simp
    qed
    with low have "h = DELETED_HASH_BIT"
      by (intro bit_eqI) (auto simp: bit_DELETED_HASH_BIT)
    with ne show False by (simp add: DELETED_HASH_BIT_def)
  qed
qed


text \<open>
  Claim C1, as the code has it.  Take a map freshly created over a buffer that
  gives a capacity between 1 and \<open>2 ^ 31\<close>, and any sequence of \<open>set\<close> calls
  in which no caller hash is \<open>0x80000000\<close> and the number of distinct pairs of
  normalised hash and key does not exceed the capacity.  Then every call
  returns, and for every \<open>(h, k)\<close> that was set a subsequent \<open>lookup(h, k)\<close>
  reports found and returns the value written last under the normalised hash
  of \<open>h\<close> and the key \<open>k\<close>.
\<close>

theorem hashmap_set_lookup_roundtrip:
  assumes t0: "t0 = hashmap_create sizeof_key sizeof_value buffer_size hs ks vs"
    and cap: "0 < m_capacity t0" "m_capacity t0 \<le> 2147483648"
    and ok: "\<forall>x\<in>set xs. fst x \<noteq> 2147483648"
    and cnt: "card ((\<lambda>x. (hashmap_hash (fst x), fst (snd x))) ` set xs) \<le> m_capacity t0"
    and mem: "(h, k, v) \<in> set xs"
  shows "\<exists>w. last_written xs h k = Some w
           \<and> lookup_after t0 (set_calls xs) h k junk = Some (True, w)"
proof -
  note c = create_robin_hood[OF t0 cap]
  have ok': "\<forall>x\<in>set xs. hashmap_hash (fst x) \<noteq> EMPTY_HASH"
    using ok by (simp add: hashmap_hash_nonzero)
  have "\<exists>t'. run_calls t0 (set_calls xs) = Some t' \<and> robin_hood t'
           \<and> m_capacity t' = m_capacity t0 \<and> content_is t' (written Map.empty xs)"
    using c(1,2) ok' cnt by (intro run_sets) (simp_all add: c(3))
  then obtain t' where t': "run_calls t0 (set_calls xs) = Some t'" "robin_hood t'"
    "content_is t' (written Map.empty xs)" by blast
  from last_written_mem[OF mem] obtain w where w: "last_written xs h k = Some w" by blast
  then have "written Map.empty xs (hashmap_hash h, k) = Some w" by (simp add: written_last)
  with t'(3) have "holds t' (hashmap_hash h) k w" by (simp add: content_is_def)
  then obtain p where p: "p < m_capacity t'" "hashes t' p = hashmap_hash h"
    "hashmap_hash h \<noteq> EMPTY_HASH" "keys t' p = k" "vals t' p = w"
    by (auto simp: holds_def)
  from hashmap_lookup_pos_present[OF t'(2) p(1-4)]
  have "hashmap_lookup t' h k junk = Some (True, w)" using p(5) by (simp add: hashmap_lookup_def)
  then show ?thesis using w t'(1) by (simp add: lookup_after_def)
qed


theorem hashmap_set_lookup_roundtrip_witness:
  "0 < m_capacity (hashmap_create 4 4 48 zero_region zero_region zero_region
        :: (nat, nat) hashmap)
   \<and> m_capacity (hashmap_create 4 4 48 zero_region zero_region zero_region
        :: (nat, nat) hashmap) \<le> 2147483648
   \<and> (13, 13, 37) \<in> set [(13 :: u32, 13 :: nat, 42 :: nat), (13, 13, 37), (13, 42, 1337)]
   \<and> last_written [(13 :: u32, 13 :: nat, 42 :: nat), (13, 13, 37), (13, 42, 1337)] 13 13
        = Some 37
   \<and> lookup_after (hashmap_create 4 4 48 zero_region zero_region zero_region)
        (set_calls [(13, 13 :: nat, 42 :: nat), (13, 13, 37), (13, 42, 1337)]) 13 13 0
        = Some (True, 37)"
proof -
  let ?t0 = "hashmap_create 4 4 48 zero_region zero_region zero_region :: (nat, nat) hashmap"
  let ?xs = "[(13 :: u32, 13 :: nat, 42 :: nat), (13, 13, 37), (13, 42, 1337)]"
  have cap: "0 < m_capacity ?t0" "m_capacity ?t0 \<le> 2147483648"
    by (simp_all add: create_fields)
  have ok: "\<forall>x\<in>set ?xs. fst x \<noteq> 2147483648" by simp
  have h13: "hashmap_hash 13 = 13"
    by (simp add: hashmap_hash_def EMPTY_HASH_def DELETED_HASH_BIT_def)
  have cnt: "card ((\<lambda>x. (hashmap_hash (fst x), fst (snd x))) ` set ?xs) \<le> m_capacity ?t0"
    by (simp add: create_fields h13)
  have mem: "(13, 13, 37) \<in> set ?xs" by simp
  have lw: "last_written ?xs 13 13 = Some 37" by (simp add: h13)
  from hashmap_set_lookup_roundtrip[OF refl cap ok cnt mem, of 0] lw
  have "lookup_after ?t0 (set_calls ?xs) 13 13 0 = Some (True, 37)" by simp
  then show ?thesis using cap mem lw by blast
qed

text \<open>
  The claim as written fails.  \<open>(0, 10)\<close> and \<open>(1, 10)\<close> are two distinct
  pairs, two pairs fit the capacity 2, and the last value written for
  \<open>(0, 10)\<close> is 1; but \<open>_hash\<close> stores both under hash 1, and
  \<open>lookup(0, 10)\<close> returns 2.
\<close>

theorem hashmap_set_lookup_counterexample:
  "m_capacity (hashmap_create 4 4 24 zero_region zero_region zero_region
        :: (nat, nat) hashmap) = 2
   \<and> distinct [(0 :: u32, 10 :: nat), (1, 10)]
   \<and> lookup_after (hashmap_create 4 4 24 zero_region zero_region zero_region)
        [Set 0 (10 :: nat) (1 :: nat), Set 1 10 2] 0 10 0 = Some (True, 2)"
  by (simp add: eval_defs lookup_after_def clear_hashes_apply)

section \<open>The probe order of reachable tables\<close>

lemma hashmap_insert_returns_room:
  assumes "robin_hood t" "h \<noteq> EMPTY_HASH" "h AND DELETED_HASH_BIT = 0"
    "hashmap_insert t h k v = Some t'"
  shows "\<exists>q<m_capacity t. hashes t q = EMPTY_HASH"
proof (rule ccontr)
  assume "\<not> (\<exists>q<m_capacity t. hashes t q = EMPTY_HASH)"
  with assms(1) have "\<forall>p<m_capacity t. live (hashes t p)"
    by (auto simp: robin_hood_def no_tombstones_def live_def)
  moreover have "live h" using assms(2,3) by (simp add: live_def)
  moreover have "0 < m_capacity t" using assms(1) by (simp add: robin_hood_def)
  ultimately have "hashmap_insert t h k v = None" by (intro hashmap_insert_full_never_returns)
  with assms(4) show False by simp
qed

lemma hashmap_set_preserves:
  assumes rh: "robin_hood t" and hn: "hashmap_hash h \<noteq> EMPTY_HASH"
    and run: "hashmap_set t h k v = Some t'"
  shows "robin_hood t' \<and> m_capacity t' = m_capacity t"
proof -
  have room: "(\<exists>v0. holds t (hashmap_hash h) k v0) \<or> (\<exists>q<m_capacity t. hashes t q = EMPTY_HASH)"
  proof (cases "\<exists>v0. holds t (hashmap_hash h) k v0")
    case True
    then show ?thesis by simp
  next
    case False
    with hn have ab: "absent t (hashmap_hash h) k" by (auto simp: absent_def holds_def)
    from hashmap_lookup_pos_absent[OF rh ab] run
    have "hashmap_insert t (hashmap_hash h) k v = Some t'" by (auto simp: hashmap_set_def)
    from hashmap_insert_returns_room[OF rh hn hashmap_hash_no_DELETED this] show ?thesis by simp
  qed
  from hashmap_set_correct[OF rh hn room, of v] run show ?thesis by auto
qed

lemma run_sets_preserve:
  assumes "robin_hood t" "\<forall>x\<in>set xs. hashmap_hash (fst x) \<noteq> EMPTY_HASH"
    "run_calls t (set_calls xs) = Some t'"
  shows "robin_hood t' \<and> m_capacity t' = m_capacity t"
  using assms
proof (induction xs arbitrary: t)
  case Nil
  then show ?case by simp
next
  case (Cons x xs)
  obtain h k v where x: "x = (h, k, v)" by (cases x)
  from Cons.prems(3) obtain t1 where t1: "hashmap_set t h k v = Some t1"
    "run_calls t1 (set_calls xs) = Some t'"
    unfolding x by (auto split: option.splits)
  have hn: "hashmap_hash h \<noteq> EMPTY_HASH" using Cons.prems(2) x by simp
  from hashmap_set_preserves[OF Cons.prems(1) hn t1(1)]
  have r1: "robin_hood t1" "m_capacity t1 = m_capacity t" by simp_all
  from Cons.IH[OF r1(1) _ t1(2)] Cons.prems(2) r1(2) show ?case by simp
qed








section \<open>copy of a table that satisfies the invariant\<close>

text \<open>
  \<open>copy\<close> scans the source and inserts every LIVE slot into the fresh map.
  When the LIVE entries of the source have pairwise different (hash, key) and
  fit the new capacity, every insert finds room, and the copy holds exactly
  the LIVE entries of the source and counts them.
\<close>

lemma live_slots_finite: "finite (live_slots t)"
  by (rule finite_subset[of _ "{..<m_capacity t}"]) (auto simp: live_slots_def)

lemma live_below_Suc:
  "{p \<in> live_slots t. p < Suc i} =
     (if i \<in> live_slots t then insert i {p \<in> live_slots t. p < i} else {p \<in> live_slots t. p < i})"
  by (auto simp: less_Suc_eq)

lemma copy_loop_correct:
  assumes "distinct_live t" "robin_hood n"
    "\<forall>h k v. holds n h k v \<longleftrightarrow>
        (\<exists>p<i. p < m_capacity t \<and> live (hashes t p) \<and> hashes t p = h \<and> keys t p = k \<and> vals t p = v)"
    "card (occupied n) = card {p \<in> live_slots t. p < i}"
    "m_num_elements n = of_nat (card {p \<in> live_slots t. p < i})"
    "card (live_slots t) \<le> m_capacity n"
    "m_capacity t - i = m"
  shows "\<exists>n'. hashmap_copy_loop t i n = Some n' \<and> robin_hood n' \<and> m_capacity n' = m_capacity n
     \<and> (\<forall>h k v. holds n' h k v \<longleftrightarrow> live_holds t h k v)
     \<and> m_num_elements n' = of_nat (card (live_slots t))"
  using assms
proof (induction m arbitrary: i n)
  case 0
  then have ge: "m_capacity t \<le> i" by simp
  then have run: "hashmap_copy_loop t i n = Some n"
    by (subst hashmap_copy_loop.simps) (simp del: hashmap_copy_loop.simps)
  have all: "{p \<in> live_slots t. p < i} = live_slots t" using ge by (auto simp: live_slots_def)
  have "\<forall>h k v. holds n h k v \<longleftrightarrow> live_holds t h k v"
  proof (intro allI)
    fix h k v
    have "(\<exists>p<i. p < m_capacity t \<and> live (hashes t p) \<and> hashes t p = h \<and> keys t p = k
              \<and> vals t p = v) \<longleftrightarrow> live_holds t h k v"
      unfolding live_holds_def
    proof
      assume "\<exists>p<i. p < m_capacity t \<and> live (hashes t p) \<and> hashes t p = h \<and> keys t p = k
                \<and> vals t p = v"
      then show "\<exists>p<m_capacity t. live (hashes t p) \<and> hashes t p = h \<and> keys t p = k
                \<and> vals t p = v" by blast
    next
      assume "\<exists>p<m_capacity t. live (hashes t p) \<and> hashes t p = h \<and> keys t p = k
                \<and> vals t p = v"
      then obtain p where p: "p < m_capacity t" "live (hashes t p) \<and> hashes t p = h
                \<and> keys t p = k \<and> vals t p = v" by blast
      from p(1) ge have "p < i" by simp
      with p show "\<exists>p<i. p < m_capacity t \<and> live (hashes t p) \<and> hashes t p = h \<and> keys t p = k
                \<and> vals t p = v" by blast
    qed
    then show "holds n h k v \<longleftrightarrow> live_holds t h k v" using "0.prems"(3) by simp
  qed
  then show ?case unfolding run using "0.prems"(2,5) all by (simp del: hashmap_copy_loop.simps)
next
  case (Suc m)
  then have lt: "i < m_capacity t" by simp
  have m': "m_capacity t - Suc i = m" using Suc.prems(7) by simp
  show ?case
  proof (cases "live (hashes t i)")
    case False
    then have run: "hashmap_copy_loop t i n = hashmap_copy_loop t (Suc i) n"
      using lt by (subst hashmap_copy_loop.simps) (auto simp: live_def simp del: hashmap_copy_loop.simps)
    have ni: "i \<notin> live_slots t" using False by (simp add: live_slots_def)
    have same: "{p \<in> live_slots t. p < Suc i} = {p \<in> live_slots t. p < i}"
      using ni by (simp add: live_below_Suc)
    have h3: "\<forall>h k v. holds n h k v \<longleftrightarrow>
        (\<exists>p<Suc i. p < m_capacity t \<and> live (hashes t p) \<and> hashes t p = h \<and> keys t p = k \<and> vals t p = v)"
      using Suc.prems(3) False by (auto simp: less_Suc_eq)
    from Suc.IH[OF Suc.prems(1,2) h3 _ _ Suc.prems(6) m'] Suc.prems(4,5)
    show ?thesis unfolding run same by (simp del: hashmap_copy_loop.simps)
  next
    case True
    let ?h = "hashes t i" and ?k = "keys t i" and ?v = "vals t i"
    from True have hne: "?h \<noteq> EMPTY_HASH" and hnd: "?h AND DELETED_HASH_BIT = 0"
      by (simp_all add: live_def)
    have ii: "i \<in> live_slots t" using True lt by (simp add: live_slots_def)
    have ab: "absent n ?h ?k"
      unfolding absent_def
    proof (intro allI impI notI)
      fix q assume q: "q < m_capacity n" "hashes n q = ?h \<and> keys n q = ?k"
      then have "holds n ?h ?k (vals n q)" using hne unfolding holds_def by blast
      with Suc.prems(3) obtain p where p: "p < i" "p < m_capacity t" "live (hashes t p)"
        "hashes t p = ?h" "keys t p = ?k" by blast
      with Suc.prems(1) lt have "p = i" unfolding distinct_live_def by blast
      with p(1) show False by simp
    qed
    have "{p \<in> live_slots t. p < i} \<subset> live_slots t" using ii by auto
    then have "card {p \<in> live_slots t. p < i} < card (live_slots t)"
      using live_slots_finite by (intro psubset_card_mono)
    then have "card (occupied n) < m_capacity n" using Suc.prems(4,6) by simp
    then have room: "\<exists>q<m_capacity n. hashes n q = EMPTY_HASH" by (rule occupied_room)
    from hashmap_insert_correct[OF Suc.prems(2) hne hnd ab room, of ?v]
    obtain n1 q where n1: "hashmap_insert n ?h ?k ?v = Some n1" "robin_hood n1"
      "m_capacity n1 = m_capacity n"
      "\<forall>h' k' v'. holds n1 h' k' v' \<longleftrightarrow> holds n h' k' v' \<or> (h' = ?h \<and> k' = ?k \<and> v' = ?v)"
      "q \<notin> occupied n" "occupied n1 = insert q (occupied n)"
      "m_num_elements n1 = m_num_elements n + 1"
      by blast
    have run: "hashmap_copy_loop t i n = hashmap_copy_loop t (Suc i) n1"
      using lt hne hnd n1(1) by (subst hashmap_copy_loop.simps) (simp del: hashmap_copy_loop.simps)
    have below: "{p \<in> live_slots t. p < Suc i} = insert i {p \<in> live_slots t. p < i}"
      using ii by (simp add: live_below_Suc)
    have fin: "finite {p \<in> live_slots t. p < i}" using live_slots_finite by simp
    have cs: "card {p \<in> live_slots t. p < Suc i} = Suc (card {p \<in> live_slots t. p < i})"
      unfolding below using fin by simp
    have h3: "\<forall>h k v. holds n1 h k v \<longleftrightarrow>
        (\<exists>p<Suc i. p < m_capacity t \<and> live (hashes t p) \<and> hashes t p = h \<and> keys t p = k \<and> vals t p = v)"
      unfolding n1(4)[rule_format] Suc.prems(3)[rule_format] using True lt
      by (auto simp: less_Suc_eq)
    have h4: "card (occupied n1) = card {p \<in> live_slots t. p < Suc i}"
      unfolding cs n1(6) using n1(5) occupied_finite(1)[of n] Suc.prems(4) by simp
    have h5: "m_num_elements n1 = of_nat (card {p \<in> live_slots t. p < Suc i})"
      unfolding cs n1(7) Suc.prems(5) by simp
    have h6: "card (live_slots t) \<le> m_capacity n1" using Suc.prems(6) n1(3) by simp
    from Suc.IH[OF Suc.prems(1) n1(2) h3 h4 h5 h6 m']
    show ?thesis unfolding run n1(3) .
  qed
qed

lemma hashmap_copy_correct:
  assumes "distinct_live t" "t0 = hashmap_create sk sv bs hs ks vs"
    "0 < m_capacity t0" "m_capacity t0 \<le> 2147483648" "card (live_slots t) \<le> m_capacity t0"
  shows "\<exists>t'. hashmap_copy t sk sv bs hs ks vs = Some t' \<and> robin_hood t'
     \<and> m_capacity t' = m_capacity t0
     \<and> (\<forall>h k v. holds t' h k v \<longleftrightarrow> live_holds t h k v)
     \<and> m_num_elements t' = of_nat (card (live_slots t))"
proof -
  note c = create_robin_hood[OF assms(2,3,4)]
  have e: "{p \<in> live_slots t. p < 0} = {}" by simp
  have h3: "\<forall>h k v. holds t0 h k v \<longleftrightarrow>
        (\<exists>p<0. p < m_capacity t \<and> live (hashes t p) \<and> hashes t p = h \<and> keys t p = k \<and> vals t p = v)"
    using c(2) by (simp add: content_is_def)
  have h4: "card (occupied t0) = card {p \<in> live_slots t. p < 0}" using c(3) by simp
  have h5: "m_num_elements t0 = of_nat (card {p \<in> live_slots t. p < 0})"
    unfolding assms(2) by (simp add: hashmap_create_def Let_def)
  have h7: "m_capacity t - 0 = m_capacity t" by simp
  from copy_loop_correct[OF assms(1) c(1) h3 h4 h5 assms(5) h7]
  show ?thesis unfolding hashmap_copy_def assms(2) .
qed

lemma lookup_loop_found_occupied:
  assumes "hashmap_lookup_loop t hash key pos distance = Some r"
  shows "fst r \<longrightarrow> hashes t (fst (snd r)) \<noteq> EMPTY_HASH"
  using assms
  apply (rule hashmap_lookup_loop.raw_induct [rotated 1,
    where P = "\<lambda>t hash key pos distance r. fst r \<longrightarrow> hashes t (fst (snd r)) \<noteq> EMPTY_HASH"])
  apply (auto split: if_splits)
  done

lemma hashmap_lookup_present:
  assumes "robin_hood t" "holds t (hashmap_hash h) k v"
  shows "hashmap_lookup t h k junk = Some (True, v)"
proof -
  from assms(2) obtain p where p: "p < m_capacity t" "hashes t p = hashmap_hash h"
    "hashmap_hash h \<noteq> EMPTY_HASH" "keys t p = k" "vals t p = v"
    by (auto simp: holds_def)
  from hashmap_lookup_pos_present[OF assms(1) p(1-4)] p(5)
  show ?thesis by (simp add: hashmap_lookup_def)
qed

text \<open>
  On a table that satisfies the invariant, \<open>remove\<close> of an entry that the
  table holds finds it: it sets the DELETED bit of the slot that holds the
  normalised hash and the key, and decrements the count.
\<close>

lemma hashmap_remove_present:
  assumes rh: "robin_hood t" and h: "holds t (hashmap_hash h) k v"
  shows "\<exists>pos < m_capacity t. live (hashes t pos) \<and> hashes t pos = hashmap_hash h
            \<and> keys t pos = k \<and> vals t pos = v
            \<and> hashmap_remove t h k =
                Some (t\<lparr>hashes := (hashes t)(pos := hashes t pos OR DELETED_HASH_BIT),
                        m_num_elements := m_num_elements t - 1\<rparr>)"
proof -
  from h obtain p where p: "p < m_capacity t" "hashes t p = hashmap_hash h"
    "hashmap_hash h \<noteq> EMPTY_HASH" "keys t p = k" "vals t p = v"
    by (auto simp: holds_def)
  from hashmap_lookup_pos_present[OF rh p(1-4)]
  have "hashmap_remove t h k =
      Some (t\<lparr>hashes := (hashes t)(p := hashes t p OR DELETED_HASH_BIT),
              m_num_elements := m_num_elements t - 1\<rparr>)"
    by (simp add: hashmap_remove_def)
  moreover have "live (hashes t p)"
    using p(2,3) hashmap_hash_no_DELETED[of h] by (simp add: live_def)
  ultimately show ?thesis using p by (intro exI[of _ p]) simp
qed

lemma hashmap_lookup_not_present:
  assumes "robin_hood t" "\<forall>v. \<not> holds t (hashmap_hash h) k v"
  shows "hashmap_lookup t h k junk = Some (False, junk)"
proof -
  let ?hn = "hashmap_hash h"
  from assms(1) have cap: "0 < m_capacity t" "m_capacity t \<le> 2147483648"
    by (simp_all add: robin_hood_def)
  from hashmap_lookup_loop_returns[OF cap, of ?hn k]
  obtain found p d where r: "hashmap_lookup_loop t ?hn k (unat ?hn mod m_capacity t) 0
      = Some (found, p, d)" by blast
  have pos: "unat ?hn mod m_capacity t < m_capacity t" using cap by simp
  have "\<not> found"
  proof
    assume f: found
    from lookup_loop_result[OF r] pos f
    have "p < m_capacity t" "hashes t p = ?hn" "keys t p = k" by simp_all
    moreover from lookup_loop_found_occupied[OF r] f have "hashes t p \<noteq> EMPTY_HASH" by simp
    ultimately have "holds t ?hn k (vals t p)" unfolding holds_def by auto
    with assms(2) show False by blast
  qed
  then show ?thesis using r cap by (simp add: hashmap_lookup_def hashmap_lookup_pos_def)
qed

lemma robin_hood_live:
  assumes "robin_hood t"
  shows "distinct_live t" "live_slots t = occupied t" "live_holds t = holds t"
proof -
  from assms have nt: "no_tombstones t" and de: "distinct_entries t"
    by (simp_all add: robin_hood_def)
  have lv: "\<And>p. p < m_capacity t \<Longrightarrow> live (hashes t p) \<longleftrightarrow> hashes t p \<noteq> EMPTY_HASH"
    using nt by (simp add: live_def no_tombstones_def)
  show "distinct_live t" using de lv unfolding distinct_live_def distinct_entries_def by blast
  show "live_slots t = occupied t" using lv by (auto simp: live_slots_def occupied_def)
  show "live_holds t = holds t" using lv by (auto simp: live_holds_def holds_def fun_eq_iff)
qed


lemma hashmap_set_counted:
  assumes rh: "robin_hood t" and ct: "counted t" and hn: "hashmap_hash h \<noteq> EMPTY_HASH"
    and run: "hashmap_set t h k v = Some t'"
  shows "counted t'"
proof -
  have room: "(\<exists>v0. holds t (hashmap_hash h) k v0) \<or> (\<exists>q<m_capacity t. hashes t q = EMPTY_HASH)"
  proof (cases "\<exists>v0. holds t (hashmap_hash h) k v0")
    case True
    then show ?thesis by simp
  next
    case False
    with hn have ab: "absent t (hashmap_hash h) k" by (auto simp: absent_def holds_def)
    from hashmap_lookup_pos_absent[OF rh ab] run
    have "hashmap_insert t (hashmap_hash h) k v = Some t'" by (auto simp: hashmap_set_def)
    from hashmap_insert_returns_room[OF rh hn hashmap_hash_no_DELETED this] show ?thesis by simp
  qed
  from hashmap_set_correct[OF rh hn room, of v] run
  have oc: "if \<exists>v0. holds t (hashmap_hash h) k v0 then occupied t' = occupied t
         else \<exists>q<m_capacity t. q \<notin> occupied t \<and> occupied t' = insert q (occupied t)"
    and ne: "m_num_elements t' =
         (if \<exists>v0. holds t (hashmap_hash h) k v0 then m_num_elements t
          else m_num_elements t + 1)"
    by auto
  show ?thesis
  proof (cases "\<exists>v0. holds t (hashmap_hash h) k v0")
    case True
    then show ?thesis using oc ne ct by (simp add: counted_def)
  next
    case False
    then obtain q where q: "q \<notin> occupied t" "occupied t' = insert q (occupied t)"
      using oc by auto
    have "card (occupied t') = Suc (card (occupied t))"
      unfolding q(2) using q(1) occupied_finite(1)[of t] by simp
    then show ?thesis using ne False ct by (simp add: counted_def)
  qed
qed

lemma run_sets_counted:
  assumes "robin_hood t" "counted t" "\<forall>x\<in>set xs. hashmap_hash (fst x) \<noteq> EMPTY_HASH"
    "run_calls t (set_calls xs) = Some t'"
  shows "counted t'"
  using assms
proof (induction xs arbitrary: t)
  case Nil
  then show ?case by simp
next
  case (Cons x xs)
  obtain h k v where x: "x = (h, k, v)" by (cases x)
  from Cons.prems(4) obtain t1 where t1: "hashmap_set t h k v = Some t1"
    "run_calls t1 (set_calls xs) = Some t'"
    unfolding x by (auto split: option.splits)
  have hn: "hashmap_hash h \<noteq> EMPTY_HASH" using Cons.prems(3) x by simp
  from hashmap_set_preserves[OF Cons.prems(1) hn t1(1)] have r1: "robin_hood t1" by simp
  from hashmap_set_counted[OF Cons.prems(1,2) hn t1(1)] have c1: "counted t1" .
  from Cons.IH[OF r1 c1 _ t1(2)] Cons.prems(3) show ?case by simp
qed

lemma create_counted: "counted (hashmap_create sk sv bs hs ks vs)"
proof -
  have "occupied (hashmap_create sk sv bs hs ks vs) = {}"
    by (auto simp: occupied_def create_fields)
  then show ?thesis by (simp add: counted_def hashmap_create_def Let_def)
qed

text \<open>
  On a table that satisfies the invariant, with a count that equals the number
  of occupied slots, \<open>copy\<close> into a buffer with room for the entries does what
  the specification says: it returns, the copy has the same count, and
  \<open>lookup\<close> answers every query on the copy as it does on the source.
\<close>

lemma hashmap_copy_faithful:
  assumes rh: "robin_hood t" and cnt: "m_num_elements t = of_nat (card (occupied t))"
    and t0: "t0 = hashmap_create sk sv bs hs ks vs"
    and cap: "0 < m_capacity t0" "m_capacity t0 \<le> 2147483648"
    and room: "card (occupied t) \<le> m_capacity t0"
  shows "\<exists>t'. hashmap_copy t sk sv bs hs ks vs = Some t'
     \<and> m_num_elements t' = m_num_elements t
     \<and> (\<forall>h k junk. hashmap_lookup t' h k junk = hashmap_lookup t h k junk)"
proof -
  note l = robin_hood_live[OF rh]
  have room': "card (live_slots t) \<le> m_capacity t0" using room l(2) by simp
  from hashmap_copy_correct[OF l(1) t0 cap room']
  obtain t' where t': "hashmap_copy t sk sv bs hs ks vs = Some t'" "robin_hood t'"
    "\<forall>h k v. holds t' h k v \<longleftrightarrow> live_holds t h k v"
    "m_num_elements t' = of_nat (card (live_slots t))"
    by blast
  have same: "\<And>h k v. holds t' h k v \<longleftrightarrow> holds t h k v" using t'(3) l(3) by simp
  have "\<forall>h k junk. hashmap_lookup t' h k junk = hashmap_lookup t h k junk"
  proof (intro allI)
    fix h k junk
    show "hashmap_lookup t' h k junk = hashmap_lookup t h k junk"
    proof (cases "\<exists>v. holds t (hashmap_hash h) k v")
      case True
      then obtain v where v: "holds t (hashmap_hash h) k v" by blast
      then have "holds t' (hashmap_hash h) k v" using same by simp
      from hashmap_lookup_present[OF t'(2) this] hashmap_lookup_present[OF rh v]
      show ?thesis by simp
    next
      case False
      then have a: "\<forall>v. \<not> holds t (hashmap_hash h) k v" by simp
      then have b: "\<forall>v. \<not> holds t' (hashmap_hash h) k v" using same by simp
      from hashmap_lookup_not_present[OF t'(2) b] hashmap_lookup_not_present[OF rh a]
      show ?thesis by simp
    qed
  qed
  then show ?thesis using t'(1,4) cnt l(2) by simp
qed

text \<open>
  In particular this holds for every table that \<open>set\<close> calls with caller
  hashes other than \<open>0x80000000\<close> produce from a fresh map.
\<close>

lemma hashmap_copy_after_sets:
  assumes src: "s0 = hashmap_create sk0 sv0 bs0 hs0 ks0 vs0"
      "0 < m_capacity s0" "m_capacity s0 \<le> 2147483648"
    and ok: "\<forall>x\<in>set xs. fst x \<noteq> 2147483648"
    and run: "run_calls s0 (set_calls xs) = Some t"
    and t0: "t0 = hashmap_create sk sv bs hs ks vs"
    and cap: "0 < m_capacity t0" "m_capacity t0 \<le> 2147483648"
    and room: "card (occupied t) \<le> m_capacity t0"
  shows "\<exists>t'. hashmap_copy t sk sv bs hs ks vs = Some t'
     \<and> m_num_elements t' = m_num_elements t
     \<and> (\<forall>h k junk. hashmap_lookup t' h k junk = hashmap_lookup t h k junk)"
proof -
  note c = create_robin_hood[OF src]
  have ok': "\<forall>x\<in>set xs. hashmap_hash (fst x) \<noteq> EMPTY_HASH"
    using ok by (simp add: hashmap_hash_nonzero)
  from run_sets_preserve[OF c(1) ok' run] have rh: "robin_hood t" by simp
  have "counted s0" unfolding src(1) by (rule create_counted)
  from run_sets_counted[OF c(1) this ok' run] have "counted t" .
  then have cnt: "m_num_elements t = of_nat (card (occupied t))" by (simp add: counted_def)
  from hashmap_copy_faithful[OF rh cnt t0 cap room] show ?thesis .
qed

end
